theory Spec2Isabelle
  imports Complex_Main "HOL-Library.AList"
begin

section \<open>Conventions of the embedding\<close>

text \<open>
  The plugin is embedded from \<^verbatim>\<open>src/unnamed/part_000\<close> (class version 2025.06.15, the
  release the change log calls v0.0.2), and from \<^verbatim>\<open>src/src/index.js\<close> (code version
  18/10/2024) for \<^verbatim>\<open>makeHomeKitName\<close>, which the newer file calls as
  \<^verbatim>\<open>HomeKitDevice.makeHomeKitName\<close> and no longer defines. Where both files define a
  function differently and the difference matters, the older one carries the suffix
  \<open>_2024\<close>.

  JavaScript numbers are finite reals. The arithmetic of \<^verbatim>\<open>scaleValue\<close>, whose result
  depends on it, is that of IEEE 754 binary64: each operation returns the double nearest
  to its exact result, and an operation whose result is not a finite double (an overflow
  or a division by zero, which yield an infinity or \<^verbatim>\<open>NaN\<close> in the source) returns
  \<open>None\<close>, from where the model does not follow the source. The products of the
  normalization are exact: no statement about them depends on their last bit. Arguments
  that are \<^verbatim>\<open>NaN\<close> or infinite are outside the model. A value that may be
  \<^verbatim>\<open>undefined\<close> is an \<open>option\<close>. Strings are lists of characters, and upper-casing
  acts on the letters of ASCII, in which the units, the node names and the serial numbers
  of the API are written. The responses of the remote API are typed as its documentation
  gives them (a serial number is a string, a peak power is a number), and the fields the
  code itself tests for presence are options. The calls into the accessory framework
  (\<^verbatim>\<open>HomeKitDevice\<close>, \<^verbatim>\<open>HomeKitHistory\<close>, the host API), whose code is not among the sources,
  are recorded as events and assumed to return.
\<close>

section \<open>Strings\<close>

text \<open>\<^verbatim>\<open>String.prototype.toUpperCase\<close>, on the letters a to z; other characters are left as
  they are.\<close>

definition toUpperCase_char :: "char \<Rightarrow> char" where
  "toUpperCase_char c =
     (case map_of (zip ''abcdefghijklmnopqrstuvwxyz'' ''ABCDEFGHIJKLMNOPQRSTUVWXYZ'') c of
        Some u \<Rightarrow> u
      | None \<Rightarrow> c)"

definition toUpperCase :: "string \<Rightarrow> string" where
  "toUpperCase s = map toUpperCase_char s"

text \<open>\<^verbatim>\<open>s.replace(/-/g, '.')\<close>\<close>

definition replace_dash :: "string \<Rightarrow> string" where
  "replace_dash s = map (\<lambda>c. if c = CHR ''-'' then CHR ''.'' else c) s"

section \<open>scaleValue\<close>

subsection \<open>The arithmetic of doubles\<close>

text \<open>
  A JavaScript number is an IEEE 754 binary64 value, and an arithmetic operation returns
  the double nearest to its exact result, a tie going to the double whose significand is
  even. \<open>round_even\<close> is this rounding to the integers.
\<close>

definition round_even :: "real \<Rightarrow> int" where
  "round_even r =
     (let f = \<lfloor>r\<rfloor> in
      if r - of_int f < 1 / 2 then f
      else if 1 / 2 < r - of_int f then f + 1
      else if even f then f else f + 1)"

text \<open>The exponent of the unit in the last place of \<open>x\<close>: 52 below the exponent of its
  leading bit (a significand has 53 bits), and not below \<open>-1074\<close>, the exponent of the
  smallest subnormal number.\<close>

definition ulp_exponent :: "real \<Rightarrow> int" where
  "ulp_exponent x = max (\<lfloor>log 2 \<bar>x\<bar>\<rfloor> - 52) (- 1074)"

text \<open>The double nearest to \<open>x\<close>, ties to even, as long as it is finite: the multiple of
  the unit in the last place that \<open>round_even\<close> selects.\<close>

definition binary64 :: "real \<Rightarrow> real" where
  "binary64 x =
     (if x = 0 then 0
      else let u = 2 powr of_int (ulp_exponent x)
           in sgn x * of_int (round_even (\<bar>x\<bar> / u)) * u)"

text \<open>The finite doubles: the numbers that rounding leaves as they are, below
  \<open>2 ^ 1024\<close> in magnitude.\<close>

definition is_double :: "real \<Rightarrow> bool" where
  "is_double x = (binary64 x = x \<and> \<bar>x\<bar> < 2 ^ 1024)"

text \<open>The number an operation returns for the exact result \<open>x\<close>. When the rounded result
  reaches \<open>2 ^ 1024\<close> the operation overflows: the source goes on with an infinity, the
  model stops with \<open>None\<close>.\<close>

definition js_number :: "real \<Rightarrow> real option" where
  "js_number x = (if \<bar>binary64 x\<bar> < 2 ^ 1024 then Some (binary64 x) else None)"

definition js_sub :: "real \<Rightarrow> real \<Rightarrow> real option" where
  "js_sub a b = js_number (a - b)"

definition js_add :: "real \<Rightarrow> real \<Rightarrow> real option" where
  "js_add a b = js_number (a + b)"

definition js_mul :: "real \<Rightarrow> real \<Rightarrow> real option" where
  "js_mul a b = js_number (a * b)"

text \<open>The quotient of two numbers as the source computes it; a division by zero (which
  yields \<^verbatim>\<open>NaN\<close> or an infinity in the source) is \<open>None\<close>.\<close>

definition js_div :: "real \<Rightarrow> real \<Rightarrow> real option" where
  "js_div a b = (if b = 0 then None else js_number (a / b))"

subsection \<open>The function\<close>

text \<open>\<^verbatim>\<open>scaleValue\<close> of \<^verbatim>\<open>src/unnamed/part_000\<close>, lines 434 to 442. \<^verbatim>\<open>Math.max\<close> and
  \<^verbatim>\<open>Math.min\<close> select one of their arguments and do not round; the five operations of
  the last line are evaluated in the order of the source: the two differences of the
  numerator, their product, the difference of the denominator, the quotient, the sum.\<close>

definition scaleValue :: "real \<Rightarrow> real \<Rightarrow> real \<Rightarrow> real \<Rightarrow> real \<Rightarrow> real option" where
  "scaleValue val sourceMin sourceMax targetMin targetMax =
     (if sourceMax = sourceMin then Some targetMin
      else
        let v = max sourceMin (min sourceMax val) in
        case js_sub v sourceMin of None \<Rightarrow> None | Some a \<Rightarrow>
        case js_sub targetMax targetMin of None \<Rightarrow> None | Some t \<Rightarrow>
        case js_mul a t of None \<Rightarrow> None | Some p \<Rightarrow>
        case js_sub sourceMax sourceMin of None \<Rightarrow> None | Some d \<Rightarrow>
        case js_div p d of None \<Rightarrow> None | Some q \<Rightarrow> js_add q targetMin)"

text \<open>\<^verbatim>\<open>scaleValue\<close> of \<^verbatim>\<open>src/src/index.js\<close>, lines 445 to 453: the same clamp written as two
  tests, and no test of the degenerate range.\<close>

definition scaleValue_2024 :: "real \<Rightarrow> real \<Rightarrow> real \<Rightarrow> real \<Rightarrow> real \<Rightarrow> real option" where
  "scaleValue_2024 val sourceRangeMin sourceRangeMax targetRangeMin targetRangeMax =
     (let v1 = (if val < sourceRangeMin then sourceRangeMin else val);
          v2 = (if v1 > sourceRangeMax then sourceRangeMax else v1)
      in case js_sub v2 sourceRangeMin of None \<Rightarrow> None | Some a \<Rightarrow>
         case js_sub targetRangeMax targetRangeMin of None \<Rightarrow> None | Some t \<Rightarrow>
         case js_mul a t of None \<Rightarrow> None | Some p \<Rightarrow>
         case js_sub sourceRangeMax sourceRangeMin of None \<Rightarrow> None | Some d \<Rightarrow>
         case js_div p d of None \<Rightarrow> None | Some q \<Rightarrow> js_add q targetRangeMin)"

section \<open>makeHomeKitName\<close>

text \<open>
  The Unicode general categories the regular expressions of \<^verbatim>\<open>makeHomeKitName\<close> name are
  tables of the JavaScript engine, not of the repository, so they are parameters: \<open>is_L\<close>
  is \<^verbatim>\<open>\p{L}\<close>, \<open>is_N\<close> is \<^verbatim>\<open>\p{N}\<close>, \<open>is_Z\<close> is \<^verbatim>\<open>\p{Z}\<close>, and \<open>is_listed\<close> holds of the
  characters the first expression lists one by one: U+2019, the full stop, the comma and
  the hyphen. The type of characters is a parameter as well.
\<close>

record 'c char_classes =
  is_L :: "'c \<Rightarrow> bool"
  is_N :: "'c \<Rightarrow> bool"
  is_Z :: "'c \<Rightarrow> bool"
  is_listed :: "'c \<Rightarrow> bool"

text \<open>A character that the class of the first expression, the complement of
  \<^verbatim>\<open>\p{L}\p{N}\p{Z}\<close> and the listed characters, matches.\<close>

definition stripped :: "'c char_classes \<Rightarrow> 'c \<Rightarrow> bool" where
  "stripped U c = (\<not> (is_L U c \<or> is_N U c \<or> is_Z U c \<or> is_listed U c))"

text \<open>A character that \<^verbatim>\<open>[^\p{L}\p{N}]\<close> matches.\<close>

definition not_alnum :: "'c char_classes \<Rightarrow> 'c \<Rightarrow> bool" where
  "not_alnum U c = (\<not> (is_L U c \<or> is_N U c))"

text \<open>\<^verbatim>\<open>s.replace(/[^\p{L}\p{N}]+$/gu, '')\<close>: the longest run of matching characters that
  reaches the end of the string is removed.\<close>

definition dropTrailing :: "('c \<Rightarrow> bool) \<Rightarrow> 'c list \<Rightarrow> 'c list" where
  "dropTrailing P s = rev (dropWhile P (rev s))"

text \<open>\<^verbatim>\<open>makeHomeKitName\<close> of \<^verbatim>\<open>src/src/index.js\<close>, lines 433 to 443, on a string (any other
  value is returned as it is): every match of the first expression is removed, then the
  run of matches of \<^verbatim>\<open>[^\p{L}\p{N}]\<close> at the start, then the run at the end.\<close>

definition makeHomeKitName :: "'c char_classes \<Rightarrow> 'c list \<Rightarrow> 'c list" where
  "makeHomeKitName U nameToMakeValid =
     dropTrailing (not_alnum U)
       (dropWhile (not_alnum U)
          (filter (\<lambda>c. \<not> stripped U c) nameToMakeValid))"

text \<open>The classes restricted to ASCII, for strings of ASCII characters: the letters, the
  digits, the space (the one separator of ASCII), and the listed full stop, comma and
  hyphen.\<close>

definition ascii_classes :: "char char_classes" where
  "ascii_classes =
     \<lparr> is_L = (\<lambda>c. let n = (of_char c :: nat) in (65 \<le> n \<and> n \<le> 90) \<or> (97 \<le> n \<and> n \<le> 122)),
       is_N = (\<lambda>c. let n = (of_char c :: nat) in 48 \<le> n \<and> n \<le> 57),
       is_Z = (\<lambda>c. c = CHR '' ''),
       is_listed = (\<lambda>c. c = CHR ''.'' \<or> c = CHR '','' \<or> c = CHR ''-'') \<rparr>"

section \<open>The data model\<close>

text \<open>A site of \<^verbatim>\<open>/sites/list\<close>, an inverter and the inventory of \<^verbatim>\<open>/inventory.json\<close>.\<close>

record site =
  site_id :: nat
  site_peakPower :: real
  site_installationDate :: string
  site_city :: "string option"

record inverter =
  inv_SN :: string
  inv_name :: string
  inv_cpuVersion :: string
  inv_model :: string
  inv_manufacturer :: string

record inventory =
  inverters :: "inverter list option"

text \<open>The power-flow reading of \<^verbatim>\<open>/currentPowerFlow.json\<close>: a unit, the three flow nodes
  and the directed edges.\<close>

datatype flow_key = GRID | PV | LOAD

record flow_node =
  currentPower :: "real option"
  status :: string

record flow_edge =
  edge_from :: string
  edge_to :: string

record powerflow_reading =
  unit :: "string option"
  pf_GRID :: "flow_node option"
  pf_PV :: "flow_node option"
  pf_LOAD :: "flow_node option"
  connections :: "flow_edge list option"

fun get_node :: "flow_key \<Rightarrow> powerflow_reading \<Rightarrow> flow_node option" where
  "get_node GRID pf = pf_GRID pf"
| "get_node PV pf = pf_PV pf"
| "get_node LOAD pf = pf_LOAD pf"

fun set_node :: "flow_key \<Rightarrow> flow_node \<Rightarrow> powerflow_reading \<Rightarrow> powerflow_reading" where
  "set_node GRID n pf = pf\<lparr>pf_GRID := Some n\<rparr>"
| "set_node PV n pf = pf\<lparr>pf_PV := Some n\<rparr>"
| "set_node LOAD n pf = pf\<lparr>pf_LOAD := Some n\<rparr>"

text \<open>
  Power-flow readings are objects that the code shares and mutates, so they live in a
  store: a reading is held by its address, \<open>cells\<close> gives the object at an address and
  \<open>next_addr\<close> is the first address never allocated.
\<close>

record heap =
  cells :: "nat \<Rightarrow> powerflow_reading option"
  next_addr :: nat

definition alloc :: "heap \<Rightarrow> powerflow_reading \<Rightarrow> nat \<times> heap" where
  "alloc h v =
     (next_addr h, h\<lparr>cells := (cells h)(next_addr h := Some v), next_addr := Suc (next_addr h)\<rparr>)"

text \<open>The object a reference designates; \<open>None\<close> for \<^verbatim>\<open>undefined\<close>.\<close>

definition deref :: "heap \<Rightarrow> nat option \<Rightarrow> powerflow_reading option" where
  "deref h r = (case r of None \<Rightarrow> None | Some a \<Rightarrow> cells h a)"

text \<open>\<^verbatim>\<open>structuredClone\<close>: a deep copy of the reading, in a fresh object; \<^verbatim>\<open>undefined\<close> is
  copied to \<^verbatim>\<open>undefined\<close>.\<close>

definition structuredClone :: "heap \<Rightarrow> nat option \<Rightarrow> nat option \<times> heap" where
  "structuredClone h r =
     (case deref h r of
        None \<Rightarrow> (None, h)
      | Some v \<Rightarrow> (let (a, h') = alloc h v in (Some a, h')))"

text \<open>An entry of \<^verbatim>\<open>#rawData\<close>, the cache of raw snapshots, and the cache itself: an object
  keyed by the numeric site id, which JavaScript enumerates in ascending order of the
  keys.\<close>

record raw_entry =
  raw_connection :: string
  raw_site :: site
  raw_inventory :: "inventory option"
  raw_powerflow :: "nat option"

type_synonym rawData = "(nat \<times> raw_entry) list"

fun rawData_set :: "nat \<Rightarrow> raw_entry \<Rightarrow> rawData \<Rightarrow> rawData" where
  "rawData_set k v [] = [(k, v)]"
| "rawData_set k v ((k', v') # xs) =
     (if k = k' then (k, v) # xs
      else if k < k' then (k, v) # (k', v') # xs
      else (k', v') # rawData_set k v xs)"

text \<open>The canonical device record that \<^verbatim>\<open>#processData\<close> derives, and the configuration
  it reads: the account-wide \<^verbatim>\<open>options.eveHistory\<close> and the overrides
  \<^verbatim>\<open>devices[serial].eveHistory\<close>.\<close>

record device =
  excluded :: bool
  serialNumber :: string
  softwareVersion :: string
  model :: string
  manufacturer :: string
  siteid :: nat
  installationDate :: string
  description :: string
  peakPower :: real
  powerflow :: "nat option"
  online :: bool
  eveHistory :: bool

record config =
  options_eveHistory :: bool
  devices_eveHistory :: "string \<Rightarrow> bool option"

section \<open>Normalization: processData\<close>

text \<open>Lines 386 to 395 of \<^verbatim>\<open>src/unnamed/part_000\<close>: the multiplier of the cloned reading's
  unit.\<close>

definition unitMultiplier :: "powerflow_reading option \<Rightarrow> real" where
  "unitMultiplier pf =
     (case pf of
        None \<Rightarrow> 1000
      | Some p \<Rightarrow>
          (case unit p of
             None \<Rightarrow> 1000
           | Some u \<Rightarrow>
               (let un = toUpperCase u in
                if un = ''MW'' then 1000000 else if un = ''W'' then 1 else 1000)))"

text \<open>Lines 397 to 401 of \<^verbatim>\<open>src/unnamed/part_000\<close>, one round of the loop over the keys:
  the node's
  \<^verbatim>\<open>currentPower\<close>, when the node and the property exist, is multiplied in the object
  the reference designates.\<close>

definition multiply_currentPower :: "real \<Rightarrow> nat option \<Rightarrow> heap \<Rightarrow> flow_key \<Rightarrow> heap" where
  "multiply_currentPower m r h key =
     (case r of
        None \<Rightarrow> h
      | Some a \<Rightarrow>
          (case cells h a of
             None \<Rightarrow> h
           | Some pf \<Rightarrow>
               (case get_node key pf of
                  None \<Rightarrow> h
                | Some node \<Rightarrow>
                    (case currentPower node of
                       None \<Rightarrow> h
                     | Some p \<Rightarrow>
                         h\<lparr>cells := (cells h)
                              (a := Some (set_node key (node\<lparr>currentPower := Some (p * m)\<rparr>) pf))\<rparr>))))"

text \<open>Lines 406 to 410 and 420 of \<^verbatim>\<open>src/unnamed/part_000\<close>: the description of an
  inverter, from its name and the city of its site. The sanitizer called there,
  \<^verbatim>\<open>HomeKitDevice.makeHomeKitName\<close>, is not among the sources; \<^verbatim>\<open>makeHomeKitName\<close> of
  \<^verbatim>\<open>src/src/index.js\<close> stands for it.\<close>

definition inverter_description :: "char char_classes \<Rightarrow> string option \<Rightarrow> string \<Rightarrow> string" where
  "inverter_description U city nm =
     (let location = (case city of Some c \<Rightarrow> c | None \<Rightarrow> []);
          description = (if nm = [] then location else nm)
      in makeHomeKitName U
           (if location = [] then description else description @ '' - '' @ location))"

text \<open>The same lines of \<^verbatim>\<open>src/src/index.js\<close> (389 to 395), where the location is emptied
  once it has become the description.\<close>

definition inverter_description_2024 :: "char char_classes \<Rightarrow> string option \<Rightarrow> string \<Rightarrow> string" where
  "inverter_description_2024 U city nm =
     (let location0 = (case city of Some c \<Rightarrow> c | None \<Rightarrow> []);
          description = (if nm = [] then location0 else nm);
          location = (if nm = [] then [] else location0)
      in makeHomeKitName U
           (if location = [] then description else description @ '' - '' @ location))"

text \<open>Lines 405 to 425 of \<^verbatim>\<open>src/unnamed/part_000\<close>: the record of one inverter, stored
  under its serial number in \<^verbatim>\<open>devices\<close>, an object that keeps the order in which its
  keys were first set.\<close>

definition device_of ::
  "config \<Rightarrow> char char_classes \<Rightarrow> raw_entry \<Rightarrow> nat option \<Rightarrow> real \<Rightarrow> inverter \<Rightarrow> device" where
  "device_of cfg U data pflow m inverter =
     (let serial = toUpperCase (inv_SN inverter) in
      \<lparr> excluded = False,
        serialNumber = serial,
        softwareVersion = replace_dash (inv_cpuVersion inverter),
        model = inv_model inverter,
        manufacturer = inv_manufacturer inverter,
        siteid = site_id (raw_site data),
        installationDate = site_installationDate (raw_site data),
        description = inverter_description U (site_city (raw_site data)) (inv_name inverter),
        peakPower = site_peakPower (raw_site data) * m,
        powerflow = pflow,
        online = True,
        eveHistory = (options_eveHistory cfg \<or> devices_eveHistory cfg serial = Some True) \<rparr>)"

type_synonym devices = "(string \<times> device) list"

definition store_device ::
  "config \<Rightarrow> char char_classes \<Rightarrow> raw_entry \<Rightarrow> nat option \<Rightarrow> real \<Rightarrow> devices \<Rightarrow> inverter \<Rightarrow> devices" where
  "store_device cfg U data pflow m devs inverter =
     (let d = device_of cfg U data pflow m inverter in AList.update (serialNumber d) d devs)"

text \<open>Lines 383 to 427 of \<^verbatim>\<open>src/unnamed/part_000\<close>: the body of the loop over the values
  of \<^verbatim>\<open>#rawData\<close>.\<close>

definition processData_site ::
  "config \<Rightarrow> char char_classes \<Rightarrow> heap \<times> devices \<Rightarrow> raw_entry \<Rightarrow> heap \<times> devices" where
  "processData_site cfg U acc data =
     (let (h, devs) = acc;
          (pflow, h1) = structuredClone h (raw_powerflow data);
          m = unitMultiplier (deref h1 pflow);
          h2 = foldl (multiply_currentPower m pflow) h1 [GRID, PV, LOAD];
          devs' = (case raw_inventory data of
                     None \<Rightarrow> devs
                   | Some inventory \<Rightarrow>
                       (case inverters inventory of
                          None \<Rightarrow> devs
                        | Some invs \<Rightarrow> foldl (store_device cfg U data pflow m) devs invs))
      in (h2, devs'))"

text \<open>\<^verbatim>\<open>#processData\<close> of \<^verbatim>\<open>src/unnamed/part_000\<close>, lines 376 to 430: the devices of every
  cached site. The store is an argument and a result, since the clones are allocated in
  it.\<close>

definition processData ::
  "config \<Rightarrow> char char_classes \<Rightarrow> heap \<Rightarrow> rawData \<Rightarrow> heap \<times> devices" where
  "processData cfg U h raw = foldl (processData_site cfg U) (h, []) (map snd raw)"

text \<open>
  What one application of the multiplier makes of a reading, written as a function of the
  reading: the yardstick for the store that \<^verbatim>\<open>#processData\<close> leaves.
\<close>

definition scale_node :: "real \<Rightarrow> flow_node option \<Rightarrow> flow_node option" where
  "scale_node m n =
     map_option (\<lambda>node. node\<lparr>currentPower := map_option (\<lambda>p. p * m) (currentPower node)\<rparr>) n"

definition scale_reading :: "real \<Rightarrow> powerflow_reading \<Rightarrow> powerflow_reading" where
  "scale_reading m pf =
     pf\<lparr>pf_GRID := scale_node m (pf_GRID pf),
        pf_PV := scale_node m (pf_PV pf),
        pf_LOAD := scale_node m (pf_LOAD pf)\<rparr>"

text \<open>
  A device record \<open>d\<close> is derived from the cache entry \<open>e\<close>, between the stores \<open>h\<close> (before)
  and \<open>h'\<close> (after): its site is the entry's, its peak power is the site's times the
  multiplier of the entry's unit, and its reading is an object allocated after \<open>h\<close> that
  holds the entry's raw reading with the multiplier applied once.
\<close>

definition derived :: "heap \<Rightarrow> heap \<Rightarrow> raw_entry \<Rightarrow> device \<Rightarrow> bool" where
  "derived h h' e d =
     (let raw = deref h (raw_powerflow e); m = unitMultiplier raw in
      siteid d = site_id (raw_site e)
      \<and> peakPower d = site_peakPower (raw_site e) * m
      \<and> (case raw of
           None \<Rightarrow> powerflow d = None
         | Some pf \<Rightarrow>
             (case powerflow d of
                None \<Rightarrow> False
              | Some a \<Rightarrow>
                  next_addr h \<le> a \<and> a < next_addr h'
                  \<and> cells h' a = Some (scale_reading m pf))))"

text \<open>The effect of one round of the loop over the keys on a reading, as a function.\<close>

fun scale_key :: "flow_key \<Rightarrow> real \<Rightarrow> powerflow_reading \<Rightarrow> powerflow_reading" where
  "scale_key GRID m pf = pf\<lparr>pf_GRID := scale_node m (pf_GRID pf)\<rparr>"
| "scale_key PV m pf = pf\<lparr>pf_PV := scale_node m (pf_PV pf)\<rparr>"
| "scale_key LOAD m pf = pf\<lparr>pf_LOAD := scale_node m (pf_LOAD pf)\<rparr>"

text \<open>The \<^verbatim>\<open>currentPower\<close> of a flow node of a reading, \<open>None\<close> when the reading, the node
  or the property is missing.\<close>

definition node_power :: "flow_key \<Rightarrow> powerflow_reading option \<Rightarrow> real option" where
  "node_power key r =
     (case r of
        None \<Rightarrow> None
      | Some pf \<Rightarrow> (case get_node key pf of None \<Rightarrow> None | Some n \<Rightarrow> currentPower n))"

text \<open>The unit of a reading, \<open>None\<close> when the reading or the unit is missing.\<close>

definition reading_unit :: "powerflow_reading option \<Rightarrow> string option" where
  "reading_unit r = (case r of None \<Rightarrow> None | Some pf \<Rightarrow> unit pf)"

subsection \<open>A cache to evaluate on\<close>

text \<open>One site in Sydney with a peak power of 5 kW and two inverters, the second without a
  name; the reading is in kW and the photovoltaic node produces 3.5.\<close>

definition example_config :: config where
  "example_config = \<lparr> options_eveHistory = True, devices_eveHistory = (\<lambda>_. None) \<rparr>"

definition example_reading :: powerflow_reading where
  "example_reading =
     \<lparr> unit = Some ''kW'',
       pf_GRID = Some \<lparr> currentPower = Some 1.2, status = ''Active'' \<rparr>,
       pf_PV = Some \<lparr> currentPower = Some 3.5, status = ''Active'' \<rparr>,
       pf_LOAD = Some \<lparr> currentPower = Some 2.3, status = ''Active'' \<rparr>,
       connections = Some [\<lparr> edge_from = ''PV'', edge_to = ''Load'' \<rparr>,
                           \<lparr> edge_from = ''LOAD'', edge_to = ''Grid'' \<rparr>] \<rparr>"

definition example_heap :: heap where
  "example_heap = \<lparr> cells = (\<lambda>_. None)(0 := Some example_reading), next_addr = 1 \<rparr>"

definition example_site :: site where
  "example_site =
     \<lparr> site_id = 1001, site_peakPower = 5, site_installationDate = ''2020-01-31'',
       site_city = Some ''Sydney'' \<rparr>"

definition example_inverters :: "inverter list" where
  "example_inverters =
     [\<lparr> inv_SN = ''7e12abcd-34'', inv_name = ''Roof'', inv_cpuVersion = ''4-15-123456'',
        inv_model = ''SE5000H'', inv_manufacturer = ''SolarEdge'' \<rparr>,
      \<lparr> inv_SN = ''7e12abcd-35'', inv_name = '''', inv_cpuVersion = ''4-15-123456'',
        inv_model = ''SE5000H'', inv_manufacturer = ''SolarEdge'' \<rparr>]"

definition example_rawData :: rawData where
  "example_rawData =
     [(1001, \<lparr> raw_connection = ''c1'', raw_site = example_site,
               raw_inventory = Some \<lparr> inverters = Some example_inverters \<rparr>,
               raw_powerflow = Some 0 \<rparr>)]"

section \<open>fetchWrapper\<close>

text \<open>
  What the network answers to one call of \<^verbatim>\<open>fetch\<close>: the promise is rejected (a
  transport failure, or the abort of the timeout), or it is fulfilled with a response.
  The network is a parameter, \<open>net\<close>: the answer to each call, numbered from the call the
  wrapper is entered with.
\<close>

record response =
  ok :: bool
  response_status :: nat

datatype fetch_outcome = Rejected | Fulfilled response

fun failed :: "fetch_outcome \<Rightarrow> bool" where
  "failed Rejected = True"
| "failed (Fulfilled response) = (ok response = False)"

text \<open>The error thrown: the transport error, whose message is rewritten with the number
  of attempts, or the error built from an HTTP status, which carries it as its code.\<close>

datatype fetch_error = TransportError nat | HttpStatusError nat

datatype fetch_result = Undefined | Response response | Thrown fetch_error

text \<open>The options the retry logic reads and writes: \<^verbatim>\<open>retry\<close> and \<^verbatim>\<open>_retryCount\<close>. The
  timeout, the method and the body only reach \<^verbatim>\<open>fetch\<close>.\<close>

record fetch_options =
  retry :: "int option"
  retryCount :: "nat option"

text \<open>Lines 454 to 460 of \<^verbatim>\<open>src/unnamed/part_000\<close>: the defaults, set on every entry.\<close>

definition retry_budget :: "fetch_options \<Rightarrow> int" where
  "retry_budget options =
     (case retry options of None \<Rightarrow> 1 | Some r \<Rightarrow> if r < 1 then 1 else r)"

definition retries_done :: "fetch_options \<Rightarrow> nat" where
  "retries_done options = (case retryCount options of None \<Rightarrow> 0 | Some c \<Rightarrow> c)"

text \<open>\<^verbatim>\<open>fetchWrapper\<close> of \<^verbatim>\<open>src/unnamed/part_000\<close>, lines 444 to 504. The result is what
  the promise settles to, with the delays slept through, in milliseconds and in order.
  The budget \<^verbatim>\<open>retry\<close> is a whole number.\<close>

function fetchWrapper ::
  "(nat \<Rightarrow> fetch_outcome) \<Rightarrow> nat \<Rightarrow> string \<Rightarrow> string \<Rightarrow> fetch_options
     \<Rightarrow> fetch_result \<times> nat list" where
  "fetchWrapper net n http_method url options =
     (if (http_method \<noteq> ''get'' \<and> http_method \<noteq> ''post'') \<or> url = [] then (Undefined, [])
      else
        let r = retry_budget options;
            c = retries_done options
        in case net n of
             Rejected \<Rightarrow>
               if r > 1 then
                 let (res, delays) =
                       fetchWrapper net (Suc n) http_method url
                         (options\<lparr>retry := Some (r - 1), retryCount := Some (c + 1)\<rparr>)
                 in (res, 500 * 2 ^ ((c + 1) - 1) # delays)
               else (Thrown (TransportError (c + 1)), [])
           | Fulfilled response \<Rightarrow>
               if ok response = False then
                 if r > 1 then
                   let (res, delays) =
                         fetchWrapper net (Suc n) http_method url
                           (options\<lparr>retry := Some (r - 1), retryCount := Some (c + 1)\<rparr>)
                   in (res, 500 * 2 ^ ((c + 1) - 1) # delays)
                 else (Thrown (HttpStatusError (response_status response)), [])
               else (Response response, []))"
  by pat_completeness auto
termination
  by (relation "measure (\<lambda>(net, n, http_method, url, options). nat (retry_budget options))")
     (auto simp: retry_budget_def)

declare fetchWrapper.simps [simp del]

text \<open>What the last attempt settles the call to.\<close>

definition settle :: "fetch_outcome \<Rightarrow> nat \<Rightarrow> fetch_result" where
  "settle outcome attempts =
     (case outcome of
        Rejected \<Rightarrow> Thrown (TransportError attempts)
      | Fulfilled response \<Rightarrow>
          if ok response = False then Thrown (HttpStatusError (response_status response))
          else Response response)"

section \<open>The reconnect loop\<close>

record connection =
  authorised :: bool
  apiKey :: string

text \<open>\<^verbatim>\<open>#connect\<close> of \<^verbatim>\<open>src/unnamed/part_000\<close>, lines 250 to 274: the connection is
  authorised when the call of the site list returns a body, and not authorised when it
  throws. \<open>succeeded\<close> is the outcome of that call.\<close>

definition connect :: "bool \<Rightarrow> connection \<Rightarrow> connection" where
  "connect succeeded conn = conn\<lparr>authorised := succeeded\<rparr>"

text \<open>
  \<^verbatim>\<open>reconnectLoop\<close> of \<^verbatim>\<open>src/unnamed/part_000\<close>, lines 205 to 221: one run of the
  closure, on the closure's variable \<^verbatim>\<open>reconnectDelay\<close> and the connection. The first component of the result is the delay
  of the timer that starts the next run. The variable starts at 15000 (line 203), and
  the first run is started at once (line 223).
\<close>

definition reconnectLoop :: "bool \<Rightarrow> nat \<times> connection \<Rightarrow> nat \<times> connection" where
  "reconnectLoop succeeded st =
     (let (reconnectDelay, conn) = st in
      if authorised conn = False then
        let conn' = connect succeeded conn in
        (if authorised conn' = True then 15000 else min (reconnectDelay * 2) 60000, conn')
      else (15000, conn))"

text \<open>The delays of the timers of successive runs, given the outcome of the
  authorisation call of each run (read only by a run that makes the call).\<close>

fun reconnect_delays :: "nat \<times> connection \<Rightarrow> bool list \<Rightarrow> nat list" where
  "reconnect_delays st [] = []"
| "reconnect_delays st (succeeded # rest) =
     (let st' = reconnectLoop succeeded st in fst st' # reconnect_delays st' rest)"

definition new_connection :: "string \<Rightarrow> connection" where
  "new_connection key = \<lparr> authorised = False, apiKey = key \<rparr>"

section \<open>The device registry: processPostSubscribe\<close>

text \<open>
  The accessory framework is outside the sources. Its calls are recorded in order:
  the unregistration of a cached accessory, the creation of a \<^verbatim>\<open>SolarInverter\<close> with its
  \<^verbatim>\<open>add\<close>, and the update event emitted to a uuid. What it returns is a parameter:
  \<open>generateUUID\<close> for \<^verbatim>\<open>HomeKitDevice.generateUUID\<close>, on the serial number, and
  \<open>created_uuid\<close> for the \<^verbatim>\<open>uuid\<close> of the created device.
\<close>

datatype sink_call = Unregister string | Instantiate device | Update string device

record sink =
  generateUUID :: "string \<Rightarrow> string"
  created_uuid :: "device \<Rightarrow> string option"

record tracked_device =
  uuid :: "string option"
  exclude :: bool

text \<open>The state of the platform object: the connections, the cache of raw snapshots with
  the store of its readings, the tracked devices by serial number, the UUIDs of the
  accessories restored from the cache of the host, and the calls made to the framework.\<close>

record platform =
  api_connections :: "string \<Rightarrow> connection option"
  rawData :: rawData
  store :: heap
  trackedDevices :: "string \<Rightarrow> tracked_device option"
  cachedAccessories :: "string list"
  calls :: "sink_call list"

text \<open>A uuid that the test \<^verbatim>\<open>uuid &&\<close> lets through.\<close>

definition truthy :: "string option \<Rightarrow> bool" where
  "truthy u = (case u of None \<Rightarrow> False | Some s \<Rightarrow> s \<noteq> [])"

text \<open>Lines 335 to 373 of \<^verbatim>\<open>src/unnamed/part_000\<close>: the body of the loop of
  \<^verbatim>\<open>#processPostSubscribe\<close>, for one device record.\<close>

definition track_device :: "sink \<Rightarrow> platform \<Rightarrow> device \<Rightarrow> platform" where
  "track_device snk p deviceData =
     (let serial = serialNumber deviceData;
          p1 = (if trackedDevices p serial = None \<and> excluded deviceData = True then
                  let u = generateUUID snk serial;
                      pa = p\<lparr>trackedDevices :=
                              (trackedDevices p)(serial := Some \<lparr>uuid = Some u, exclude = True\<rparr>)\<rparr>
                  in if u \<in> set (cachedAccessories pa)
                     then pa\<lparr>calls := calls pa @ [Unregister u]\<rparr> else pa
                else p);
          p2 = (if trackedDevices p1 serial = None \<and> excluded deviceData = False then
                  p1\<lparr>trackedDevices :=
                        (trackedDevices p1)
                        (serial := Some \<lparr>uuid = created_uuid snk deviceData, exclude = False\<rparr>),
                     calls := calls p1 @ [Instantiate deviceData]\<rparr>
                else p1)
      in case trackedDevices p2 serial of
           None \<Rightarrow> p2
         | Some t \<Rightarrow>
             if excluded deviceData = False \<and> truthy (uuid t)
             then p2\<lparr>calls := calls p2 @ [Update (the (uuid t)) deviceData]\<rparr>
             else p2)"

text \<open>\<^verbatim>\<open>#processPostSubscribe\<close> of \<^verbatim>\<open>src/unnamed/part_000\<close>, lines 334 to 374: the loop
  over the records of \<^verbatim>\<open>#processData\<close>.\<close>

definition processPostSubscribe ::
  "config \<Rightarrow> char char_classes \<Rightarrow> sink \<Rightarrow> platform \<Rightarrow> platform" where
  "processPostSubscribe cfg U snk p =
     (let (h, devs) = processData cfg U (store p) (rawData p)
      in foldl (track_device snk) (p\<lparr>store := h\<rparr>) (map snd devs))"

text \<open>The serial numbers of the devices created by a list of calls.\<close>

fun instantiated :: "sink_call list \<Rightarrow> string list" where
  "instantiated [] = []"
| "instantiated (Instantiate d # cs) = serialNumber d # instantiated cs"
| "instantiated (c # cs) = instantiated cs"

section \<open>Aggregation: subscribeREST\<close>

text \<open>
  What a call of the API gives once its body is decoded: it failed (the wrapper threw, or
  the body was no JSON), or a body. For one site of the list, \<open>inventory_json\<close> is the
  \<^verbatim>\<open>Inventory\<close> property of the body of \<^verbatim>\<open>/inventory.json\<close> and \<open>powerflow_json\<close> the
  \<^verbatim>\<open>siteCurrentPowerFlow\<close> property of the body of \<^verbatim>\<open>/currentPowerFlow.json\<close>.
\<close>

datatype 'a fetched = Failed | Body 'a

record site_round =
  round_site :: site
  inventory_json :: "inventory option fetched"
  powerflow_json :: "powerflow_reading option fetched"

text \<open>The decoded reading enters the store as a new object.\<close>

definition store_reading :: "heap \<Rightarrow> powerflow_reading option \<Rightarrow> nat option \<times> heap" where
  "store_reading h pf =
     (case pf of None \<Rightarrow> (None, h) | Some v \<Rightarrow> (let (a, h') = alloc h v in (Some a, h')))"

text \<open>
  Lines 293 to 324 of \<^verbatim>\<open>src/unnamed/part_000\<close>: one round of the loop over the sites.
  \<^verbatim>\<open>tempObject\<close> has a key for each of the two fetches that succeeded, so the number of
  its keys is the length of \<^verbatim>\<open>FETCHURLS\<close> exactly when both did.
\<close>

definition subscribeREST_site ::
  "config \<Rightarrow> char char_classes \<Rightarrow> sink \<Rightarrow> string \<Rightarrow> platform \<Rightarrow> site_round \<Rightarrow> platform" where
  "subscribeREST_site cfg U snk connection_uuid p r =
     (case inventory_json r of
        Failed \<Rightarrow> p
      | Body inventory \<Rightarrow>
          (case powerflow_json r of
             Failed \<Rightarrow> p
           | Body pf \<Rightarrow>
               (let (ref, h) = store_reading (store p) pf;
                    entry = \<lparr> raw_connection = connection_uuid, raw_site = round_site r,
                              raw_inventory = inventory, raw_powerflow = ref \<rparr>
                in processPostSubscribe cfg U snk
                     (p\<lparr>store := h,
                        rawData := rawData_set (site_id (round_site r)) entry (rawData p)\<rparr>))))"

text \<open>\<^verbatim>\<open>#subscribeREST\<close> of \<^verbatim>\<open>src/unnamed/part_000\<close>, lines 276 to 332, without the timer
  that starts the next cycle.
  \<open>site_list\<close> is the outcome of the call of the site list: failed, a body without an
  array of sites, or the sites, each with the outcome of its two fetches.\<close>

definition subscribeREST ::
  "config \<Rightarrow> char char_classes \<Rightarrow> sink \<Rightarrow> string \<Rightarrow> platform
     \<Rightarrow> site_round list option fetched \<Rightarrow> platform" where
  "subscribeREST cfg U snk connection_uuid p site_list =
     (case api_connections p connection_uuid of
        None \<Rightarrow> p
      | Some conn \<Rightarrow>
          if authorised conn \<noteq> True then p
          else
            (case site_list of
               Failed \<Rightarrow> p
             | Body None \<Rightarrow> p
             | Body (Some rounds) \<Rightarrow>
                 foldl (subscribeREST_site cfg U snk connection_uuid) p rounds))"

section \<open>The accessory: updateDevice\<close>

datatype charging_state = NOT_CHARGING | CHARGING

datatype low_battery = BATTERY_LEVEL_NORMAL | BATTERY_LEVEL_LOW

text \<open>A call of \<^verbatim>\<open>updateCharacteristic\<close>: the characteristic and the value. A value that
  is not a finite number (\<^verbatim>\<open>NaN\<close>, an infinity, \<^verbatim>\<open>undefined\<close>) is \<open>None\<close>.\<close>

datatype characteristic =
    On bool
  | OutletInUse bool
  | BatteryLevel "real option"
  | ChargingState charging_state
  | StatusLowBattery low_battery
  | CurrentAmbientLightLevel "real option"

text \<open>A service is the list of the calls it has received, oldest first; a service that
  \<^verbatim>\<open>setupDevice\<close> has not created yet is \<open>None\<close>.\<close>

record solar_inverter =
  outletService :: "characteristic list option"
  batteryService :: "characteristic list option"
  lightService :: "characteristic list option"

datatype js_error = TypeError

definition exporting :: "flow_edge \<Rightarrow> bool" where
  "exporting flow =
     (toUpperCase (edge_from flow) = ''LOAD'' \<and> toUpperCase (edge_to flow) = ''GRID'')"

definition importing :: "flow_edge \<Rightarrow> bool" where
  "importing flow =
     (toUpperCase (edge_from flow) = ''GRID'' \<and> toUpperCase (edge_to flow) = ''LOAD'')"

text \<open>Lines 98 to 117 of \<^verbatim>\<open>src/unnamed/part_000\<close> (106 to 129 of \<^verbatim>\<open>src/src/index.js\<close>
  are the same): the calls on the battery service for one edge.\<close>

definition flow_writes :: "flow_edge \<Rightarrow> characteristic list" where
  "flow_writes flow =
     (if exporting flow
      then [ChargingState CHARGING, StatusLowBattery BATTERY_LEVEL_NORMAL] else [])
     @ (if importing flow
        then [ChargingState NOT_CHARGING, StatusLowBattery BATTERY_LEVEL_LOW] else [])"

text \<open>
  \<^verbatim>\<open>updateDevice\<close> of \<^verbatim>\<open>src/unnamed/part_000\<close>, lines 77 to 124, on the record of the
  device and the store that holds its reading. Reading a property of a missing reading, node or service throws. The calls
  of the history service that follow (lines 126 to 152), which is outside the sources
  and gets no service to write to, are left out.
\<close>

definition updateDevice :: "heap \<Rightarrow> solar_inverter \<Rightarrow> device \<Rightarrow> js_error + solar_inverter" where
  "updateDevice h this deviceData =
     (case outletService this of
        None \<Rightarrow> Inr this
      | Some outlet \<Rightarrow>
     (case batteryService this of
        None \<Rightarrow> Inr this
      | Some battery \<Rightarrow>
     (case deref h (powerflow deviceData) of
        None \<Rightarrow> Inl TypeError
      | Some pf \<Rightarrow>
     (case pf_PV pf of
        None \<Rightarrow> Inl TypeError
      | Some pv \<Rightarrow>
          let generating =
                (currentPower pv \<noteq> Some 0 \<or> toUpperCase (status pv) = ''ACTIVE'');
              outlet' = outlet @ [On generating, OutletInUse generating];
              batteryLevel =
                (case currentPower pv of
                   None \<Rightarrow> if peakPower deviceData = 0 then Some 0 else None
                 | Some w \<Rightarrow> scaleValue w 0 (peakPower deviceData) 0 100);
              battery' =
                battery @ [BatteryLevel batteryLevel, ChargingState NOT_CHARGING]
                @ (case connections pf of
                     None \<Rightarrow> []
                   | Some flows \<Rightarrow> concat (map flow_writes flows));
              lux = (case currentPower pv of
                       None \<Rightarrow> None
                     | Some w \<Rightarrow> Some (if w < 0.0001 then 0.0001 else w))
          in case lightService this of
               None \<Rightarrow> Inl TypeError
             | Some light \<Rightarrow>
                 Inr (this\<lparr>outletService := Some outlet',
                           batteryService := Some battery',
                           lightService := Some (light @ [CurrentAmbientLightLevel lux])\<rparr>)))))"

text \<open>The value a characteristic ends with: that of the last call that writes it.\<close>

fun last_ChargingState :: "characteristic list \<Rightarrow> charging_state option" where
  "last_ChargingState [] = None"
| "last_ChargingState (ChargingState v # cs) =
     (case last_ChargingState cs of None \<Rightarrow> Some v | Some v' \<Rightarrow> Some v')"
| "last_ChargingState (c # cs) = last_ChargingState cs"

fun writes_StatusLowBattery :: "characteristic list \<Rightarrow> low_battery list" where
  "writes_StatusLowBattery [] = []"
| "writes_StatusLowBattery (StatusLowBattery v # cs) = v # writes_StatusLowBattery cs"
| "writes_StatusLowBattery (c # cs) = writes_StatusLowBattery cs"

fun last_StatusLowBattery :: "characteristic list \<Rightarrow> low_battery option" where
  "last_StatusLowBattery [] = None"
| "last_StatusLowBattery (StatusLowBattery v # cs) =
     (case last_StatusLowBattery cs of None \<Rightarrow> Some v | Some v' \<Rightarrow> Some v')"
| "last_StatusLowBattery (c # cs) = last_StatusLowBattery cs"

text \<open>The edges of a reading; none when \<^verbatim>\<open>connections\<close> is missing.\<close>

definition edges_of :: "powerflow_reading \<Rightarrow> flow_edge list" where
  "edges_of pf = (case connections pf of None \<Rightarrow> [] | Some flows \<Rightarrow> flows)"

subsection \<open>A registry and an accessory to evaluate on\<close>

definition example_sink :: sink where
  "example_sink =
     \<lparr> generateUUID = (\<lambda>serial. ''uuid-'' @ serial),
       created_uuid = (\<lambda>d. Some (''uuid-'' @ serialNumber d)) \<rparr>"

definition example_platform :: platform where
  "example_platform =
     \<lparr> api_connections = (\<lambda>_. None)(''c1'' := Some \<lparr> authorised = True, apiKey = ''KEY'' \<rparr>),
       rawData = [],
       store = \<lparr> cells = (\<lambda>_. None), next_addr = 0 \<rparr>,
       trackedDevices = (\<lambda>_. None),
       cachedAccessories = [],
       calls = [] \<rparr>"

definition example_device :: device where
  "example_device =
     \<lparr> excluded = False, serialNumber = ''7E12ABCD-34'', softwareVersion = ''4.15.123456'',
       model = ''SE5000H'', manufacturer = ''SolarEdge'', siteid = 1001,
       installationDate = ''2020-01-31'', description = ''Roof - Sydney'',
       peakPower = 5000, powerflow = Some 0, online = True, eveHistory = True \<rparr>"

definition example_inverter :: solar_inverter where
  "example_inverter =
     \<lparr> outletService = Some [], batteryService = Some [], lightService = Some [] \<rparr>"

text \<open>A reading in W whose list of edges has one edge from LOAD to GRID followed by one
  from GRID to LOAD, in a store of its own.\<close>

definition example_reading_both :: powerflow_reading where
  "example_reading_both =
     \<lparr> unit = Some ''W'',
       pf_GRID = Some \<lparr> currentPower = Some 1200, status = ''Active'' \<rparr>,
       pf_PV = Some \<lparr> currentPower = Some 3500, status = ''Active'' \<rparr>,
       pf_LOAD = Some \<lparr> currentPower = Some 2300, status = ''Active'' \<rparr>,
       connections = Some [\<lparr> edge_from = ''LOAD'', edge_to = ''GRID'' \<rparr>,
                           \<lparr> edge_from = ''GRID'', edge_to = ''LOAD'' \<rparr>] \<rparr>"

definition example_heap_both :: heap where
  "example_heap_both =
     \<lparr> cells = (\<lambda>_. None)(0 := Some example_reading_both), next_addr = 1 \<rparr>"

subsection \<open>What a commit is\<close>

text \<open>Both fetches of a round succeeded.\<close>

definition both_succeed :: "site_round \<Rightarrow> bool" where
  "both_succeed r = (inventory_json r \<noteq> Failed \<and> powerflow_json r \<noteq> Failed)"

text \<open>
  Between the platform states \<open>p\<close> (before) and \<open>p'\<close> (after), the cache entry of the site
  of round \<open>r\<close> has been overwritten with the data of the round: it holds the connection,
  the site and the inventory of the round, and its reading is a new object of the store,
  allocated after \<open>p\<close>, that holds the reading of the round.
\<close>

definition committed :: "string \<Rightarrow> platform \<Rightarrow> platform \<Rightarrow> site_round \<Rightarrow> bool" where
  "committed connection_uuid p p' r =
     (case map_of (rawData p') (site_id (round_site r)) of
        None \<Rightarrow> False
      | Some e \<Rightarrow>
          raw_connection e = connection_uuid
          \<and> raw_site e = round_site r
          \<and> inventory_json r = Body (raw_inventory e)
          \<and> (case raw_powerflow e of
                None \<Rightarrow> powerflow_json r = Body None
              | Some a \<Rightarrow>
                  next_addr (store p) \<le> a \<and> a < next_addr (store p')
                  \<and> cells (store p') a \<noteq> None
                  \<and> powerflow_json r = Body (cells (store p') a)))"

text \<open>Two rounds of a cycle: a site whose two fetches succeed, and a second site whose
  inventory fetch fails.\<close>

definition example_round_ok :: site_round where
  "example_round_ok =
     \<lparr> round_site = example_site,
       inventory_json = Body (Some \<lparr> inverters = Some example_inverters \<rparr>),
       powerflow_json = Body (Some example_reading) \<rparr>"

definition example_round_failed :: site_round where
  "example_round_failed =
     \<lparr> round_site = example_site\<lparr>site_id := 1002\<rparr>,
       inventory_json = Failed,
       powerflow_json = Body (Some example_reading) \<rparr>"

section \<open>The older normalization\<close>

text \<open>
  \<^verbatim>\<open>#processData\<close> of \<^verbatim>\<open>src/src/index.js\<close>, lines 371 to 429, for comparison. It has no
  clone: inside the loop over the inverters it multiplies the nodes of \<^verbatim>\<open>data.powerflow\<close>,
  the cached object itself, and hands that object to the device record. It reads the
  inventory, the unit and the three nodes without a test, so a missing one throws. (The
  store a throw leaves behind is not part of the result.)
\<close>

fun fold_throwing :: "('s \<Rightarrow> 'a \<Rightarrow> js_error + 's) \<Rightarrow> 's \<Rightarrow> 'a list \<Rightarrow> js_error + 's" where
  "fold_throwing f s [] = Inr s"
| "fold_throwing f s (x # xs) =
     (case f s x of Inl e \<Rightarrow> Inl e | Inr s' \<Rightarrow> fold_throwing f s' xs)"

text \<open>Lines 408 to 416 of \<^verbatim>\<open>src/src/index.js\<close>, for one node: \<^verbatim>\<open>hasOwnProperty\<close> on a
  missing node throws.\<close>

definition multiply_in_place :: "real \<Rightarrow> nat \<Rightarrow> heap \<Rightarrow> flow_key \<Rightarrow> js_error + heap" where
  "multiply_in_place m a h key =
     (case cells h a of
        None \<Rightarrow> Inl TypeError
      | Some pf \<Rightarrow>
          (case get_node key pf of
             None \<Rightarrow> Inl TypeError
           | Some node \<Rightarrow>
               (case currentPower node of
                  None \<Rightarrow> Inr h
                | Some w \<Rightarrow>
                    Inr (h\<lparr>cells := (cells h)
                           (a := Some (set_node key (node\<lparr>currentPower := Some (w * m)\<rparr>) pf))\<rparr>))))"

text \<open>Lines 398 to 407 of \<^verbatim>\<open>src/src/index.js\<close>: the multiplier, from the unit of the
  cached reading.\<close>

definition unitMultplier_2024 :: "string \<Rightarrow> real" where
  "unitMultplier_2024 u =
     (let m0 = 1000;
          m1 = (if toUpperCase u = ''KW'' then 1000 else m0);
          m2 = (if toUpperCase u = ''MW'' then 1000000 else m1)
      in if toUpperCase u = ''W'' then 1 else m2)"

text \<open>Lines 380 to 424 of \<^verbatim>\<open>src/src/index.js\<close>: the body of the loop over the inverters
  of a cached site.\<close>

definition processData_inverter_2024 ::
  "config \<Rightarrow> char char_classes \<Rightarrow> raw_entry \<Rightarrow> heap \<times> devices \<Rightarrow> inverter
     \<Rightarrow> js_error + heap \<times> devices" where
  "processData_inverter_2024 cfg U data acc inverter =
     (let (h, devs) = acc;
          serial = toUpperCase (inv_SN inverter)
      in case raw_powerflow data of
           None \<Rightarrow> Inl TypeError
         | Some a \<Rightarrow>
             (case cells h a of
                None \<Rightarrow> Inl TypeError
              | Some pf \<Rightarrow>
                  (case unit pf of
                     None \<Rightarrow> Inl TypeError
                   | Some u \<Rightarrow>
                       (let m = unitMultplier_2024 u in
                        case fold_throwing (multiply_in_place m a) h [GRID, PV, LOAD] of
                          Inl e \<Rightarrow> Inl e
                        | Inr h' \<Rightarrow>
                            Inr (h',
                                 AList.update serial
                                   \<lparr> excluded = False,
                                     serialNumber = serial,
                                     softwareVersion = replace_dash (inv_cpuVersion inverter),
                                     model = inv_model inverter,
                                     manufacturer = inv_manufacturer inverter,
                                     siteid = site_id (raw_site data),
                                     installationDate = site_installationDate (raw_site data),
                                     description =
                                       inverter_description_2024 U (site_city (raw_site data))
                                         (inv_name inverter),
                                     peakPower = site_peakPower (raw_site data) * m,
                                     powerflow = Some a,
                                     online = True,
                                     eveHistory =
                                       (options_eveHistory cfg
                                        \<or> devices_eveHistory cfg serial = Some True) \<rparr>
                                   devs)))))"

text \<open>Lines 377 to 426 of \<^verbatim>\<open>src/src/index.js\<close>: the loop over the cached sites. \<^verbatim>\<open>Object.values\<close> of a missing
  inventory or list of inverters throws.\<close>

definition processData_site_2024 ::
  "config \<Rightarrow> char char_classes \<Rightarrow> heap \<times> devices \<Rightarrow> raw_entry \<Rightarrow> js_error + heap \<times> devices" where
  "processData_site_2024 cfg U acc data =
     (case raw_inventory data of
        None \<Rightarrow> Inl TypeError
      | Some inventory \<Rightarrow>
          (case inverters inventory of
             None \<Rightarrow> Inl TypeError
           | Some invs \<Rightarrow> fold_throwing (processData_inverter_2024 cfg U data) acc invs))"

definition processData_2024 ::
  "config \<Rightarrow> char char_classes \<Rightarrow> heap \<Rightarrow> rawData \<Rightarrow> js_error + heap \<times> devices" where
  "processData_2024 cfg U h raw =
     fold_throwing (processData_site_2024 cfg U) (h, []) (map snd raw)"

text \<open>The references of a cache all designate objects allocated in the store.\<close>

definition refs_allocated :: "heap \<Rightarrow> rawData \<Rightarrow> bool" where
  "refs_allocated h raw =
     list_all (\<lambda>e. case raw_powerflow e of None \<Rightarrow> True | Some a \<Rightarrow> a < next_addr h)
       (map snd raw)"

section \<open>Properties of scaleValue\<close>

subsection \<open>Rounding to the nearest integer\<close>

lemma round_even_of_int: "round_even (of_int n) = n"
  by (simp add: round_even_def)

lemma round_even_floor: "\<lfloor>r\<rfloor> \<le> round_even r \<and> round_even r \<le> \<lfloor>r\<rfloor> + 1"
  by (simp add: round_even_def Let_def)

lemma round_even_mono:
  assumes "r \<le> s"
  shows "round_even r \<le> round_even s"
proof (cases "\<lfloor>r\<rfloor> < \<lfloor>s\<rfloor>")
  case True
  then show ?thesis using round_even_floor [of r] round_even_floor [of s] by linarith
next
  case False
  with assms have eq: "\<lfloor>r\<rfloor> = \<lfloor>s\<rfloor>" using floor_mono [of r s] by linarith
  show ?thesis using assms by (auto simp: round_even_def Let_def eq)
qed

lemma round_even_lower: "of_int n \<le> r \<Longrightarrow> n \<le> round_even r"
  using round_even_mono [of "of_int n" r] by (simp add: round_even_of_int)

lemma round_even_upper: "r \<le> of_int n \<Longrightarrow> round_even r \<le> n"
  using round_even_mono [of r "of_int n"] by (simp add: round_even_of_int)

subsection \<open>Rounding to the nearest double is monotone\<close>

lemma binary64_zero: "binary64 0 = 0"
  by (simp add: binary64_def)

lemma binary64_pos:
  "0 < x \<Longrightarrow> binary64 x = of_int (round_even (x / 2 powr of_int (ulp_exponent x)))
                              * 2 powr of_int (ulp_exponent x)"
  by (simp add: binary64_def Let_def)

lemma ulp_exponent_minus: "ulp_exponent (- x) = ulp_exponent x"
  by (simp add: ulp_exponent_def)

lemma binary64_minus: "binary64 (- x) = - binary64 x"
  by (simp add: binary64_def Let_def ulp_exponent_minus sgn_minus)

lemma log2_bounds:
  assumes "0 < x"
  shows "2 powr of_int \<lfloor>log 2 x\<rfloor> \<le> x" and "x < 2 powr (of_int \<lfloor>log 2 x\<rfloor> + 1)"
proof -
  show "2 powr of_int \<lfloor>log 2 x\<rfloor> \<le> x"
    using le_log_iff [of 2 x "of_int \<lfloor>log 2 x\<rfloor>"] assms by simp
  have one_less_two: "(1::real) < 2" by simp
  have "log 2 x < of_int \<lfloor>log 2 x\<rfloor> + 1" by linarith
  then show "x < 2 powr (of_int \<lfloor>log 2 x\<rfloor> + 1)"
    using log_less_iff [OF one_less_two assms, of "of_int \<lfloor>log 2 x\<rfloor> + 1"] by blast
qed

lemma ulp_exponent_mono:
  assumes "0 < x" and "x \<le> y"
  shows "ulp_exponent x \<le> ulp_exponent y"
proof -
  have "log 2 x \<le> log 2 y" using assms by simp
  then have "\<lfloor>log 2 x\<rfloor> \<le> \<lfloor>log 2 y\<rfloor>" by (rule floor_mono)
  then show ?thesis using assms by (simp add: ulp_exponent_def)
qed

lemma scaled_below:
  assumes "0 < x"
  shows "x / 2 powr of_int (ulp_exponent x) < 2 ^ 53"
proof -
  let ?e = "ulp_exponent x"
  have "of_int \<lfloor>log 2 x\<rfloor> + 1 \<le> (of_int ?e + 53 :: real)"
  proof -
    have "\<lfloor>log 2 x\<rfloor> + 1 \<le> ?e + 53" using assms by (simp add: ulp_exponent_def)
    then have "(of_int (\<lfloor>log 2 x\<rfloor> + 1) :: real) \<le> of_int (?e + 53)" by (simp only: of_int_le_iff)
    then show ?thesis by simp
  qed
  then have "2 powr (of_int \<lfloor>log 2 x\<rfloor> + 1) \<le> (2::real) powr (of_int ?e + 53)"
    by (simp only: powr_le_cancel_iff) 
  with log2_bounds(2) [OF assms] have "x < 2 powr (of_int ?e + 53)" by linarith
  also have "\<dots> = 2 powr of_int ?e * 2 ^ 53" by (simp add: powr_add)
  finally show ?thesis by (simp add: pos_divide_less_eq mult.commute)
qed

lemma scaled_above:
  assumes "0 < x" and "- 1074 < ulp_exponent x"
  shows "2 ^ 52 \<le> x / 2 powr of_int (ulp_exponent x)"
proof -
  let ?e = "ulp_exponent x"
  from assms(2) have e: "?e = \<lfloor>log 2 x\<rfloor> - 52" using assms(1) by (simp add: ulp_exponent_def)
  have "(of_int \<lfloor>log 2 x\<rfloor> :: real) = of_int ?e + 52" by (simp add: e)
  with log2_bounds(1) [OF assms(1)] have "2 powr (of_int ?e + 52) \<le> x" by simp
  moreover have "2 powr (of_int ?e + 52) = 2 powr of_int ?e * (2::real) ^ 52"
    by (simp add: powr_add)
  ultimately show ?thesis by (simp add: pos_le_divide_eq mult.commute)
qed

lemma binary64_mono_pos:
  assumes "0 < x" and "x \<le> y"
  shows "binary64 x \<le> binary64 y"
proof -
  let ?ex = "ulp_exponent x" and ?ey = "ulp_exponent y"
  from assms have y: "0 < y" by simp
  have le: "?ex \<le> ?ey" using assms by (rule ulp_exponent_mono)
  show ?thesis
  proof (cases "?ex = ?ey")
    case True
    have "x / 2 powr of_int ?ey \<le> y / 2 powr of_int ?ey"
      using assms by (simp add: divide_right_mono)
    then have "round_even (x / 2 powr of_int ?ey) \<le> round_even (y / 2 powr of_int ?ey)"
      by (rule round_even_mono)
    then have "(of_int (round_even (x / 2 powr of_int ?ey)) :: real)
                 \<le> of_int (round_even (y / 2 powr of_int ?ey))" by simp
    then show ?thesis
      using True by (simp add: binary64_pos assms(1) y mult_right_mono)
  next
    case False
    with le have lt: "?ex + 1 \<le> ?ey" by simp
    have low: "- 1074 \<le> ?ex" by (simp add: ulp_exponent_def)
    with lt have normal: "- 1074 < ?ey" by simp
    have "round_even (x / 2 powr of_int ?ex) \<le> 2 ^ 53"
      using scaled_below [OF assms(1)] by (intro round_even_upper) simp
    then have "(of_int (round_even (x / 2 powr of_int ?ex)) :: real) \<le> of_int (2 ^ 53)"
      by (simp only: of_int_le_iff)
    then have "binary64 x \<le> 2 ^ 53 * 2 powr of_int ?ex"
      by (simp add: binary64_pos assms(1) mult_right_mono)
    also have "\<dots> = 2 powr (of_int ?ex + 53)" by (simp add: powr_add)
    also have "\<dots> \<le> 2 powr (of_int ?ey + 52)"
    proof -
      have "(of_int (?ex + 1) :: real) \<le> of_int ?ey" using lt by (simp only: of_int_le_iff)
      then have "(of_int ?ex + 53 :: real) \<le> of_int ?ey + 52" by simp
      then show ?thesis by (simp only: powr_le_cancel_iff) 
    qed
    also have "\<dots> = 2 ^ 52 * 2 powr of_int ?ey" by (simp add: powr_add)
    also have "\<dots> \<le> binary64 y"
    proof -
      have "2 ^ 52 \<le> round_even (y / 2 powr of_int ?ey)"
        using scaled_above [OF y normal] by (intro round_even_lower) simp
      then have "(of_int (2 ^ 52) :: real) \<le> of_int (round_even (y / 2 powr of_int ?ey))"
        by (simp only: of_int_le_iff)
      then show ?thesis by (simp add: binary64_pos y mult_right_mono)
    qed
    finally show ?thesis .
  qed
qed

lemma binary64_nonneg: "0 \<le> x \<Longrightarrow> 0 \<le> binary64 x"
proof -
  assume "0 \<le> x"
  show ?thesis
  proof (cases "x = 0")
    case True then show ?thesis by (simp add: binary64_zero)
  next
    case False
    with \<open>0 \<le> x\<close> have x: "0 < x" by simp
    have "0 \<le> round_even (x / 2 powr of_int (ulp_exponent x))"
      using x by (intro round_even_lower) simp
    then show ?thesis by (simp add: binary64_pos x)
  qed
qed

lemma binary64_mono:
  assumes "x \<le> y"
  shows "binary64 x \<le> binary64 y"
proof -
  consider "0 < x" | "x \<le> 0" "0 \<le> y" | "y < 0" by linarith
  then show ?thesis
  proof cases
    case 1
    then show ?thesis using assms by (rule binary64_mono_pos)
  next
    case 2
    have "0 \<le> binary64 (- x)" using 2(1) by (intro binary64_nonneg) simp
    then have "binary64 x \<le> 0" by (simp add: binary64_minus)
    moreover have "0 \<le> binary64 y" using 2(2) by (rule binary64_nonneg)
    ultimately show ?thesis by simp
  next
    case 3
    then have "0 < - y" and "- y \<le> - x" using assms by simp_all
    then have "binary64 (- y) \<le> binary64 (- x)" by (rule binary64_mono_pos)
    then show ?thesis by (simp add: binary64_minus)
  qed
qed

subsection \<open>Doubles that can be read off\<close>

text \<open>Within one binade the rounding is \<open>round_even\<close> on the scaled number; powers of two
  and the integers below \<open>2 ^ 53\<close> are doubles; rounding at most doubles a number.\<close>

lemma floor_log2:
  assumes "0 < x" and "2 powr of_int k \<le> x" and "x < 2 powr (of_int k + 1)"
  shows "\<lfloor>log 2 x\<rfloor> = k"
  using floor_log_eq_powr_iff [of x 2 k] assms by simp

lemma binary64_normal:
  assumes "2 powr of_int k \<le> x" and "x < 2 powr (of_int k + 1)" and "- 1022 \<le> k"
  shows "binary64 x
           = of_int (round_even (x / 2 powr of_int (k - 52))) * 2 powr of_int (k - 52)"
proof -
  have x: "0 < x" using assms(1) powr_gt_zero [of 2 "of_int k"] by linarith
  have "\<lfloor>log 2 x\<rfloor> = k" using x assms(1,2) by (rule floor_log2)
  then have "ulp_exponent x = k - 52" using x assms(3) by (simp add: ulp_exponent_def)
  then show ?thesis by (simp add: binary64_pos x)
qed

lemma binary64_power2: "binary64 (2 ^ n) = 2 ^ n"
proof -
  have a: "2 powr of_int (int n) \<le> (2::real) ^ n" by (simp add: powr_realpow)
  have b: "(2::real) ^ n < 2 powr (of_int (int n) + 1)"
    by (simp add: powr_add powr_realpow)
  have c: "- 1022 \<le> int n" by simp
  have d: "(2::real) ^ n / 2 powr of_int (int n - 52) = of_int (2 ^ 52)"
  proof -
    have e1: "(2::real) powr of_int (int n - 52) * 2 powr 52
                = 2 powr (of_int (int n - 52) + 52)"
      by (simp only: powr_add)
    have e2: "(of_int (int n - 52) + 52 :: real) = real n" by simp
    have e3: "(2::real) powr 52 = of_int (2 ^ 52)" by simp
    have nz: "(2::real) powr of_int (int n - 52) \<noteq> 0" by simp
    have "(2::real) ^ n = 2 powr real n" by (simp add: powr_realpow)
    also have "\<dots> = 2 powr of_int (int n - 52) * of_int (2 ^ 52)"
      using e1 by (simp only: e2 e3)
    finally have "(2::real) ^ n = 2 powr of_int (int n - 52) * of_int (2 ^ 52)" .
    then have "(2::real) ^ n / 2 powr of_int (int n - 52)
                 = 2 powr of_int (int n - 52) * of_int (2 ^ 52) / 2 powr of_int (int n - 52)"
      by (rule arg_cong)
    also have "\<dots> = of_int (2 ^ 52)" using nz by (rule nonzero_mult_div_cancel_left)
    finally show ?thesis .
  qed
  have "binary64 (2 ^ n) = of_int (2 ^ 52) * 2 powr of_int (int n - 52)"
    using binary64_normal [OF a b c] by (simp only: d round_even_of_int)
  also have "\<dots> = 2 powr 52 * 2 powr of_int (int n - 52)" by simp
  also have "\<dots> = 2 powr (52 + of_int (int n - 52))" by (simp only: powr_add)
  also have "\<dots> = 2 ^ n" by (simp add: powr_realpow)
  finally show ?thesis .
qed

lemma round_even_le_twice:
  assumes "0 \<le> r"
  shows "of_int (round_even r) \<le> 2 * r"
proof -
  have f0: "(0::real) \<le> of_int \<lfloor>r\<rfloor>" using assms by simp
  have fr: "of_int \<lfloor>r\<rfloor> \<le> r" by simp
  show ?thesis
  proof (cases "r - of_int \<lfloor>r\<rfloor> < 1 / 2")
    case True
    then have v: "round_even r = \<lfloor>r\<rfloor>" by (simp add: round_even_def)
    have "of_int \<lfloor>r\<rfloor> \<le> 2 * r" using f0 fr by linarith
    then show ?thesis by (simp only: v)
  next
    case False
    have "round_even r \<le> \<lfloor>r\<rfloor> + 1" using round_even_floor [of r] by simp
    then have "(of_int (round_even r) :: real) \<le> of_int (\<lfloor>r\<rfloor> + 1)"
      by (simp only: of_int_le_iff)
    then have "(of_int (round_even r) :: real) \<le> of_int \<lfloor>r\<rfloor> + 1" by simp
    with False f0 show ?thesis by linarith
  qed
qed

lemma binary64_le_twice:
  assumes "0 \<le> x"
  shows "binary64 x \<le> 2 * x"
proof (cases "x = 0")
  case True
  then show ?thesis by (simp add: binary64_zero)
next
  case False
  with assms have x: "0 < x" by simp
  let ?u = "(2::real) powr of_int (ulp_exponent x)"
  have u: "0 < ?u" by simp
  have "of_int (round_even (x / ?u)) \<le> 2 * (x / ?u)"
    using x by (intro round_even_le_twice) simp
  then have "of_int (round_even (x / ?u)) * ?u \<le> 2 * (x / ?u) * ?u"
    using u by (simp only: mult_right_mono less_imp_le)
  then show ?thesis by (simp add: binary64_pos x)
qed

lemma binary64_of_int:
  assumes "\<bar>n\<bar> < 2 ^ 53"
  shows "binary64 (of_int n) = of_int n"
proof -
  have pos: "binary64 (of_int m) = of_int m" if m: "0 < m" "m < 2 ^ 53" for m :: int
  proof -
    let ?x = "of_int m :: real"
    have x: "0 < ?x" "1 \<le> ?x" using m by simp_all
    let ?k = "\<lfloor>log 2 ?x\<rfloor>"
    have k0: "0 \<le> ?k" using x by simp
    have "?x < 2 ^ 53" using m(2) by (metis of_int_less_iff of_int_numeral of_int_power)
    then have "log 2 ?x < 53" using x by (simp add: log_less_iff)
    then have k1: "?k < 53" by linarith
    have ab: "\<bar>?x\<bar> = ?x" using x by simp
    have e: "ulp_exponent ?x = ?k - 52" unfolding ulp_exponent_def ab using k0 by linarith
    let ?j = "nat (52 - ?k)"
    have u: "(2::real) powr of_int (?k - 52) = inverse (2 ^ ?j)"
      using k1 powr_real_of_int [of 2 "?k - 52"] by (cases "?k = 52") simp_all
    have scaled: "?x / 2 powr of_int (?k - 52) = of_int (m * 2 ^ ?j)"
      unfolding u by (simp add: divide_inverse)
    have "binary64 ?x = of_int (round_even (?x / 2 powr of_int (?k - 52)))
                          * 2 powr of_int (?k - 52)"
      by (simp only: binary64_pos [OF x(1)] e)
    also have "\<dots> = of_int (m * 2 ^ ?j) * 2 powr of_int (?k - 52)"
      by (simp only: scaled round_even_of_int)
    also have "\<dots> = of_int (m * 2 ^ ?j) * inverse (2 ^ ?j)"
      by (simp only: u)
    finally show ?thesis by simp
  qed
  consider "n = 0" | "0 < n" | "n < 0" by linarith
  then show ?thesis
  proof cases
    case 1 then show ?thesis by (simp add: binary64_zero)
  next
    case 2 with assms show ?thesis by (intro pos) simp_all
  next
    case 3
    with assms have "binary64 (of_int (- n)) = of_int (- n)" by (intro pos) simp_all
    then show ?thesis by (simp add: binary64_minus)
  qed
qed

lemma binary64_numeral:
  "numeral n < (2::int) ^ 53 \<Longrightarrow> binary64 (numeral n) = numeral n"
  using binary64_of_int [of "numeral n"] by simp

text \<open>Every double is a multiple of the smallest subnormal number, so the difference
  of two distinct doubles does not round to zero.\<close>

lemma binary64_grid: "\<exists>k::int. binary64 x = of_int k * 2 powr (- 1074)"
proof (cases "x = 0")
  case True
  then show ?thesis by (simp add: binary64_zero)
next
  case False
  let ?e = "ulp_exponent x"
  let ?m = "round_even (\<bar>x\<bar> / 2 powr of_int ?e)"
  have low: "- 1074 \<le> ?e" by (simp add: ulp_exponent_def)
  have "(2::real) powr of_int ?e = 2 powr (of_int (?e + 1074) + (- 1074))" by simp
  also have "\<dots> = 2 powr of_int (?e + 1074) * 2 powr (- 1074)" by (simp only: powr_add)
  also have "2 powr of_int (?e + 1074) = (2::real) ^ nat (?e + 1074)"
    using low powr_real_of_int [of 2 "?e + 1074"] by simp
  finally have u: "(2::real) powr of_int ?e = of_int (2 ^ nat (?e + 1074)) * 2 powr (- 1074)"
    by simp
  have s: "sgn x = of_int (if 0 < x then 1 else - 1)" using False by (simp add: sgn_if)
  have "binary64 x = sgn x * of_int ?m * 2 powr of_int ?e"
    using False by (simp add: binary64_def Let_def)
  also have "\<dots> = of_int ((if 0 < x then 1 else - 1) * ?m * 2 ^ nat (?e + 1074))
                      * 2 powr (- 1074)"
    by (simp only: u s of_int_mult mult.assoc)
  finally show ?thesis by blast
qed

lemma binary64_above_grid:
  assumes "2 powr (- 1074) \<le> x"
  shows "0 < binary64 x"
proof -
  have x: "0 < x" using assms powr_gt_zero [of 2 "- 1074"] by linarith
  let ?u = "(2::real) powr of_int (ulp_exponent x)"
  have "1 \<le> x / ?u"
  proof (cases "- 1074 < ulp_exponent x")
    case True
    have "(1::real) \<le> 2 ^ 52" by simp
    with scaled_above [OF x True] show ?thesis by linarith
  next
    case False
    moreover have "- 1074 \<le> ulp_exponent x" by (simp add: ulp_exponent_def)
    ultimately have "ulp_exponent x = - 1074" by simp
    then show ?thesis using assms by (simp add: pos_le_divide_eq)
  qed
  then have "1 \<le> round_even (x / ?u)" by (intro round_even_lower) simp
  then have "(of_int 1 :: real) \<le> of_int (round_even (x / ?u))" by (simp only: of_int_le_iff)
  then have "0 < of_int (round_even (x / ?u)) * ?u" by simp
  then show ?thesis by (simp add: binary64_pos x)
qed

lemma binary64_difference_pos:
  assumes "binary64 a = a" and "binary64 b = b" and "a < b"
  shows "0 < binary64 (b - a)"
proof -
  obtain ka :: int where ka: "a = of_int ka * 2 powr (- 1074)"
    using binary64_grid [of a] assms(1) by auto
  obtain kb :: int where kb: "b = of_int kb * 2 powr (- 1074)"
    using binary64_grid [of b] assms(2) by auto
  have c: "(0::real) < 2 powr (- 1074)" by simp
  have "of_int ka * 2 powr (- 1074) < of_int kb * (2::real) powr (- 1074)"
    using assms(3) ka kb by simp
  then have "(of_int ka :: real) < of_int kb" using c by (simp only: mult_less_cancel_right_pos)
  then have "ka + 1 \<le> kb" by simp
  then have "(of_int (ka + 1) :: real) \<le> of_int kb" by (simp only: of_int_le_iff)
  then have "(1::real) \<le> of_int kb - of_int ka" by simp
  then have "1 * 2 powr (- 1074) \<le> (of_int kb - of_int ka) * (2::real) powr (- 1074)"
    using c by (simp only: mult_right_mono less_imp_le)
  then have "2 powr (- 1074) \<le> b - a" by (simp add: ka kb left_diff_distrib)
  then show ?thesis by (rule binary64_above_grid)
qed

subsection \<open>The operations of scaleValue do not overflow\<close>

lemma js_number_eval:
  "binary64 x = y \<Longrightarrow> \<bar>y\<bar> < 2 ^ 1024 \<Longrightarrow> js_number x = Some y"
  by (simp add: js_number_def)

lemma js_number_Some: "\<bar>binary64 x\<bar> < 2 ^ 1024 \<Longrightarrow> js_number x = Some (binary64 x)"
  by (simp add: js_number_def)

lemma binary64_bounded:
  assumes "0 \<le> x" and "x \<le> 2 ^ n"
  shows "0 \<le> binary64 x" and "binary64 x \<le> 2 ^ n"
proof -
  show "0 \<le> binary64 x" using assms(1) by (rule binary64_nonneg)
  have "binary64 x \<le> binary64 (2 ^ n)" using assms(2) by (rule binary64_mono)
  then show "binary64 x \<le> 2 ^ n" by (simp only: binary64_power2)
qed

text \<open>For a range of doubles of magnitude at most \<open>2 ^ 500\<close> and a value inside the source
  range, each of the five operations returns a finite double, and the divisor is
  positive.\<close>

lemma scaleValue_clamped:
  assumes lt: "sourceMin < sourceMax" and t: "targetMin \<le> targetMax"
    and d1: "binary64 sourceMin = sourceMin" and d2: "binary64 sourceMax = sourceMax"
    and b1: "\<bar>sourceMin\<bar> \<le> 2 ^ 500" and b2: "\<bar>sourceMax\<bar> \<le> 2 ^ 500"
    and b3: "\<bar>targetMin\<bar> \<le> 2 ^ 500" and b4: "\<bar>targetMax\<bar> \<le> 2 ^ 500"
    and v: "sourceMin \<le> v" "v \<le> sourceMax"
  shows "js_sub v sourceMin = Some (binary64 (v - sourceMin))"
    and "js_sub targetMax targetMin = Some (binary64 (targetMax - targetMin))"
    and "js_mul (binary64 (v - sourceMin)) (binary64 (targetMax - targetMin))
           = Some (binary64 (binary64 (v - sourceMin) * binary64 (targetMax - targetMin)))"
    and "js_sub sourceMax sourceMin = Some (binary64 (sourceMax - sourceMin))"
    and "0 < binary64 (sourceMax - sourceMin)"
    and "js_div (binary64 (binary64 (v - sourceMin) * binary64 (targetMax - targetMin)))
           (binary64 (sourceMax - sourceMin))
           = Some (binary64 (binary64 (binary64 (v - sourceMin) * binary64 (targetMax - targetMin))
                               / binary64 (sourceMax - sourceMin)))"
    and "js_add (binary64 (binary64 (binary64 (v - sourceMin) * binary64 (targetMax - targetMin))
                             / binary64 (sourceMax - sourceMin))) targetMin
           = Some (binary64 (binary64 (binary64 (binary64 (v - sourceMin)
                                                   * binary64 (targetMax - targetMin))
                                         / binary64 (sourceMax - sourceMin)) + targetMin))"
    and "0 \<le> binary64 (binary64 (binary64 (v - sourceMin) * binary64 (targetMax - targetMin))
                           / binary64 (sourceMax - sourceMin))"
proof -
  let ?A = "binary64 (v - sourceMin)"
  let ?T = "binary64 (targetMax - targetMin)"
  let ?P = "binary64 (?A * ?T)"
  let ?D = "binary64 (sourceMax - sourceMin)"
  let ?Q = "binary64 (?P / ?D)"
  let ?R = "binary64 (?Q + targetMin)"
  have big: "(2::real) ^ 501 < 2 ^ 1024" "(2::real) ^ 1002 < 2 ^ 1024"
    "(2::real) ^ 502 < 2 ^ 1024" "(2::real) ^ 503 < 2 ^ 1024"
    by simp_all
  have two: "(2::real) ^ 501 = 2 * 2 ^ 500" "(2::real) ^ 502 = 2 * 2 ^ 501"
    "(2::real) ^ 1002 = 2 ^ 501 * 2 ^ 501" "(2::real) ^ 503 = 2 ^ 502 + 2 ^ 502"
    by simp_all
  have a0: "0 \<le> v - sourceMin" and a1: "v - sourceMin \<le> 2 ^ 501"
    using v b1 b2 unfolding two by linarith+
  have A: "0 \<le> ?A" "?A \<le> 2 ^ 501" using binary64_bounded [OF a0 a1] by simp_all
  have t0: "0 \<le> targetMax - targetMin" and t1: "targetMax - targetMin \<le> 2 ^ 501"
    using t b3 b4 unfolding two by linarith+
  have T: "0 \<le> ?T" "?T \<le> 2 ^ 501" using binary64_bounded [OF t0 t1] by simp_all
  have p0: "0 \<le> ?A * ?T" using A(1) T(1) by simp
  have p1: "?A * ?T \<le> 2 ^ 1002"
    unfolding two using A T by (intro mult_mono) simp_all
  have P: "0 \<le> ?P" "?P \<le> 2 ^ 1002" using binary64_bounded [OF p0 p1] by simp_all
  have d0: "0 \<le> sourceMax - sourceMin" and d1': "sourceMax - sourceMin \<le> 2 ^ 501"
    using lt b1 b2 unfolding two by linarith+
  have D: "?D \<le> 2 ^ 501" using binary64_bounded [OF d0 d1'] by simp
  show Dpos: "0 < ?D" using d1 d2 lt by (rule binary64_difference_pos)
  have AD: "?A \<le> ?D" using v by (intro binary64_mono) simp
  have "?P \<le> 2 * (?A * ?T)" using p0 by (rule binary64_le_twice)
  also have "?A * ?T \<le> ?D * ?T" using AD T(1) by (rule mult_right_mono)
  finally have "?P \<le> (2 * ?T) * ?D" by (simp add: mult.commute mult.left_commute)
  then have "?P / ?D \<le> 2 * ?T" using Dpos by (simp only: pos_divide_le_eq)
  with T(2) have q1: "?P / ?D \<le> 2 ^ 502" unfolding two by linarith
  have q0: "0 \<le> ?P / ?D" using P(1) Dpos by simp
  have Q: "0 \<le> ?Q" "?Q \<le> 2 ^ 502" using binary64_bounded [OF q0 q1] by simp_all
  show "0 \<le> ?Q" by (rule Q(1))
  have r0: "0 \<le> ?Q + targetMin + 2 ^ 502" and r1: "?Q + targetMin \<le> 2 ^ 503"
    using Q b3 unfolding two by linarith+
  have "binary64 (- (2 ^ 502)) \<le> ?R" using r0 by (intro binary64_mono) simp
  then have R0: "- (2 ^ 502) \<le> ?R" by (simp only: binary64_minus binary64_power2)
  have "?R \<le> binary64 (2 ^ 503)" using r1 by (rule binary64_mono)
  then have R1: "?R \<le> 2 ^ 503" by (simp only: binary64_power2)
  have "\<bar>?A\<bar> < 2 ^ 1024" using A big by linarith
  then show "js_sub v sourceMin = Some ?A" unfolding js_sub_def by (rule js_number_Some)
  have "\<bar>?T\<bar> < 2 ^ 1024" using T big by linarith
  then show "js_sub targetMax targetMin = Some ?T" unfolding js_sub_def by (rule js_number_Some)
  have "\<bar>?P\<bar> < 2 ^ 1024" using P big by linarith
  then show "js_mul ?A ?T = Some ?P" unfolding js_mul_def by (rule js_number_Some)
  have "\<bar>?D\<bar> < 2 ^ 1024" using D Dpos big by linarith
  then show "js_sub sourceMax sourceMin = Some ?D" unfolding js_sub_def by (rule js_number_Some)
  have "\<bar>?Q\<bar> < 2 ^ 1024" using Q big by linarith
  then have "js_number (?P / ?D) = Some ?Q" by (rule js_number_Some)
  then show "js_div ?P ?D = Some ?Q" using Dpos by (simp add: js_div_def)
  have "\<bar>?R\<bar> < 2 ^ 1024" using R0 R1 big by linarith
  then show "js_add ?Q targetMin = Some ?R" unfolding js_add_def by (rule js_number_Some)
qed

lemma scaleValue_proper:
  assumes lt: "sourceMin < sourceMax" and t: "targetMin \<le> targetMax"
    and d1: "binary64 sourceMin = sourceMin" and d2: "binary64 sourceMax = sourceMax"
    and b1: "\<bar>sourceMin\<bar> \<le> 2 ^ 500" and b2: "\<bar>sourceMax\<bar> \<le> 2 ^ 500"
    and b3: "\<bar>targetMin\<bar> \<le> 2 ^ 500" and b4: "\<bar>targetMax\<bar> \<le> 2 ^ 500"
  shows "scaleValue val sourceMin sourceMax targetMin targetMax
           = Some (binary64 (binary64 (binary64 (binary64 (max sourceMin (min sourceMax val)
                                                             - sourceMin)
                                                   * binary64 (targetMax - targetMin))
                                         / binary64 (sourceMax - sourceMin)) + targetMin))"
proof -
  let ?v = "max sourceMin (min sourceMax val)"
  have v: "sourceMin \<le> ?v" "?v \<le> sourceMax" using lt by simp_all
  note steps = scaleValue_clamped [OF lt t d1 d2 b1 b2 b3 b4 v]
  have ne: "sourceMax \<noteq> sourceMin" using lt by simp
  show ?thesis
    unfolding scaleValue_def Let_def
    by (simp only: ne if_False steps(1,2,3,4,6,7) option.case)
qed

lemma scaleValue_degenerate: "scaleValue v a a tmin tmax = Some tmin"
  by (simp add: scaleValue_def)

text \<open>
  Claim C10. \<^verbatim>\<open>scaleValue\<close> (the definition of \<^verbatim>\<open>src/unnamed/part_000\<close>) always returns a
  number: for every value and every range of doubles with \<open>sourceMin \<le> sourceMax\<close> and
  \<open>targetMin \<le> targetMax\<close>, of magnitude at most \<open>2 ^ 500\<close> (so that no operation
  overflows), the result is defined; it is the target minimum when the source range is
  degenerate (no division takes place); otherwise the divisor is not zero and the
  result is the scaled image, computed in double arithmetic, of the value clamped into the
  source range. The result is at least \<open>targetMin\<close> and at most the result for the value
  \<open>sourceMax\<close>. It is not always at most \<open>targetMax\<close>: the roundings of the product, the
  quotient and the sum can carry the result for \<open>sourceMax\<close> above \<open>targetMax\<close>.
\<close>

theorem scaleValue_total_rounded:
  assumes "sourceMin \<le> sourceMax" and "targetMin \<le> targetMax"
    and "is_double sourceMin" and "is_double sourceMax" and "is_double targetMin"
    and "\<bar>sourceMin\<bar> \<le> 2 ^ 500" and "\<bar>sourceMax\<bar> \<le> 2 ^ 500"
    and "\<bar>targetMin\<bar> \<le> 2 ^ 500" and "\<bar>targetMax\<bar> \<le> 2 ^ 500"
  shows "\<exists>r top. scaleValue val sourceMin sourceMax targetMin targetMax = Some r
           \<and> scaleValue sourceMax sourceMin sourceMax targetMin targetMax = Some top
           \<and> targetMin \<le> r \<and> r \<le> top
           \<and> (sourceMax = sourceMin \<longrightarrow> r = targetMin)
           \<and> (sourceMax \<noteq> sourceMin \<longrightarrow>
                sourceMin \<le> max sourceMin (min sourceMax val)
                \<and> max sourceMin (min sourceMax val) \<le> sourceMax
                \<and> binary64 (sourceMax - sourceMin) \<noteq> 0
                \<and> r = binary64 (binary64 (binary64
                          (binary64 (max sourceMin (min sourceMax val) - sourceMin)
                           * binary64 (targetMax - targetMin))
                          / binary64 (sourceMax - sourceMin)) + targetMin))"
proof (cases "sourceMax = sourceMin")
  case True
  then show ?thesis by (simp add: scaleValue_degenerate)
next
  case False
  with assms(1) have lt: "sourceMin < sourceMax" by simp
  have d1: "binary64 sourceMin = sourceMin" and d2: "binary64 sourceMax = sourceMax"
    and d3: "binary64 targetMin = targetMin"
    using assms(3,4,5) by (simp_all add: is_double_def)
  let ?T = "binary64 (targetMax - targetMin)"
  let ?D = "binary64 (sourceMax - sourceMin)"
  let ?v = "max sourceMin (min sourceMax val)"
  let ?r = "binary64 (binary64 (binary64 (binary64 (?v - sourceMin) * ?T) / ?D) + targetMin)"
  let ?top = "binary64 (binary64 (binary64 (binary64 (sourceMax - sourceMin) * ?T) / ?D)
                          + targetMin)"
  have v: "sourceMin \<le> ?v" "?v \<le> sourceMax" using lt by simp_all
  have r: "scaleValue val sourceMin sourceMax targetMin targetMax = Some ?r"
    using lt assms(2) d1 d2 assms(6,7,8,9) by (rule scaleValue_proper)
  have "scaleValue sourceMax sourceMin sourceMax targetMin targetMax
          = Some (binary64 (binary64 (binary64
                    (binary64 (max sourceMin (min sourceMax sourceMax) - sourceMin) * ?T)
                    / ?D) + targetMin))"
    using lt assms(2) d1 d2 assms(6,7,8,9) by (rule scaleValue_proper)
  moreover have "max sourceMin (min sourceMax sourceMax) = sourceMax" using lt by simp
  ultimately have top: "scaleValue sourceMax sourceMin sourceMax targetMin targetMax = Some ?top"
    by (simp only:)
  note steps = scaleValue_clamped [OF lt assms(2) d1 d2 assms(6,7,8,9) v]
  have Dpos: "0 < ?D" by (rule steps(5))
  have T0: "0 \<le> ?T" using assms(2) by (intro binary64_nonneg) simp
  have "targetMin \<le> binary64 (binary64 (binary64 (?v - sourceMin) * ?T) / ?D) + targetMin"
    using steps(8) by simp
  then have "binary64 targetMin \<le> ?r" by (rule binary64_mono)
  then have lower: "targetMin \<le> ?r" by (simp only: d3)
  have "binary64 (?v - sourceMin) \<le> ?D" using v(2) by (intro binary64_mono) simp
  then have "binary64 (?v - sourceMin) * ?T \<le> ?D * ?T" using T0 by (rule mult_right_mono)
  then have "binary64 (binary64 (?v - sourceMin) * ?T) \<le> binary64 (?D * ?T)"
    by (rule binary64_mono)
  then have "binary64 (binary64 (?v - sourceMin) * ?T) / ?D \<le> binary64 (?D * ?T) / ?D"
    using Dpos by (simp only: divide_right_mono less_imp_le)
  then have "binary64 (binary64 (binary64 (?v - sourceMin) * ?T) / ?D)
               \<le> binary64 (binary64 (?D * ?T) / ?D)"
    by (rule binary64_mono)
  then have "binary64 (binary64 (binary64 (?v - sourceMin) * ?T) / ?D) + targetMin
               \<le> binary64 (binary64 (?D * ?T) / ?D) + targetMin"
    by simp
  then have upper: "?r \<le> ?top" by (rule binary64_mono)
  have ne: "?D \<noteq> 0" using Dpos by simp
  show ?thesis
    using r top lower upper v ne False
    by (intro exI [of _ ?r] exI [of _ ?top]) simp
qed

theorem scaleValue_total_rounded_witness:
  "is_double 0 \<and> is_double 5000
   \<and> scaleValue 3500 0 5000 0 100 = Some 70
   \<and> scaleValue 9000 0 5000 0 100 = Some 100
   \<and> scaleValue (- 5) 0 5000 0 100 = Some 0
   \<and> scaleValue 3500 0 0 0 100 = Some 0"
proof -
  have d0: "is_double 0" by (simp add: is_double_def binary64_zero)
  have d5: "is_double 5000" by (simp add: is_double_def binary64_numeral)
  have le: "(0::real) \<le> 5000" "(0::real) \<le> 100" "(0::real) \<le> 0" by simp_all
  have b: "\<bar>0::real\<bar> \<le> 2 ^ 500" "\<bar>5000::real\<bar> \<le> 2 ^ 500" "\<bar>100::real\<bar> \<le> 2 ^ 500"
    by simp_all
  note inst = scaleValue_total_rounded [OF le(1) le(2) d0 d5 d0 b(1) b(2) b(1) b(3)]
  from inst [of 3500]
  have "scaleValue 3500 0 5000 0 100 = Some 70"
    by (auto simp: binary64_numeral binary64_zero)
  moreover from inst [of 9000]
  have "scaleValue 9000 0 5000 0 100 = Some 100"
    by (auto simp: binary64_numeral binary64_zero)
  moreover from inst [of "- 5"]
  have "scaleValue (- 5) 0 5000 0 100 = Some 0"
    by (auto simp: binary64_numeral binary64_zero)
  moreover from scaleValue_total_rounded [OF le(3) le(2) d0 d0 d0 b(1) b(1) b(1) b(3), of 3500]
  have "scaleValue 3500 0 0 0 100 = Some 0" by auto
  ultimately show ?thesis using d0 d5 by simp
qed

text \<open>The result for the largest value of the source range, from the roundings of the
  product, the quotient and the sum.\<close>

lemma scaleValue_top:
  assumes d: "0 < d" "binary64 d = d" "\<bar>d\<bar> < 2 ^ 1024"
    and t: "binary64 t = t" "\<bar>t\<bar> < 2 ^ 1024"
    and p: "binary64 (d * t) = p" "\<bar>p\<bar> < 2 ^ 1024"
    and q: "binary64 (p / d) = q" "\<bar>q\<bar> < 2 ^ 1024" "binary64 q = q"
  shows "scaleValue d 0 d 0 t = Some q"
proof -
  have zero: "d - 0 = d" "t - 0 = t" "q + 0 = q" by simp_all
  have s1: "js_sub d 0 = Some d"
    unfolding js_sub_def zero using d(2,3) by (rule js_number_eval)
  have s2: "js_sub t 0 = Some t"
    unfolding js_sub_def zero using t by (rule js_number_eval)
  have s3: "js_mul d t = Some p"
    unfolding js_mul_def using p by (rule js_number_eval)
  have "js_number (p / d) = Some q" using q(1,2) by (rule js_number_eval)
  then have s4: "js_div p d = Some q" using d(1) by (simp add: js_div_def)
  have s5: "js_add q 0 = Some q"
    unfolding js_add_def zero using q(3,2) by (rule js_number_eval)
  have ne: "d \<noteq> 0" using d(1) by simp
  have cl: "max 0 (min d d) = d" using d(1) by simp
  show ?thesis
    by (simp only: scaleValue_def Let_def ne if_False cl s1 s2 s3 s4 s5 option.case)
qed

text \<open>The result can exceed \<open>targetMax\<close>. For the double written \<^verbatim>\<open>0.1\<close>, the call
  \<^verbatim>\<open>scaleValue(0.1, 0, 0.1, 0, 3)\<close> returns \<open>3 + 1 / 2 ^ 51\<close> (printed 3.0000000000000004);
  for the double printed 3000.1000000000004 (the product of 3.0001 and 1000), the call
  \<^verbatim>\<open>scaleValue(p, 0, p, 0, 100)\<close>, which is the program's own for a production at the peak
  power \<open>p\<close>, returns \<open>100 + 1 / 2 ^ 46\<close> (printed 100.00000000000001).\<close>

theorem scaleValue_exceeds_counterexample:
  "binary64 (1 / 10) = 3602879701896397 / 36028797018963968
   \<and> is_double (3602879701896397 / 36028797018963968) \<and> is_double 0 \<and> is_double 3
   \<and> (0::real) \<le> 3602879701896397 / 36028797018963968 \<and> (0::real) \<le> 3
   \<and> scaleValue (3602879701896397 / 36028797018963968) 0
         (3602879701896397 / 36028797018963968) 0 3 = Some (3 + 1 / 2 ^ 51)
   \<and> (3::real) < 3 + 1 / 2 ^ 51
   \<and> is_double (1649322417245389 / 549755813888) \<and> is_double 100
   \<and> scaleValue (1649322417245389 / 549755813888) 0
         (1649322417245389 / 549755813888) 0 100 = Some (100 + 1 / 2 ^ 46)
   \<and> (100::real) < 100 + 1 / 2 ^ 46"
proof -
  let ?d = "3602879701896397 / 36028797018963968 :: real"
  let ?p = "1351079888211149 / 4503599627370496 :: real"
  let ?q = "6755399441055745 / 2251799813685248 :: real"
  have tenth: "binary64 (1 / 10) = ?d"
    using binary64_normal [of "- 4" "1 / 10"]
    by (simp add: powr_neg_numeral round_even_def Let_def)
  have d: "binary64 ?d = ?d"
    using binary64_normal [of "- 4" ?d]
    by (simp add: powr_neg_numeral round_even_def Let_def)
  have three: "binary64 3 = 3" by (simp add: binary64_numeral)
  have p: "binary64 (?d * 3) = ?p"
    using binary64_normal [of "- 2" "?d * 3"]
    by (simp add: powr_neg_numeral round_even_def Let_def)
  have q: "binary64 (?p / ?d) = ?q"
    using binary64_normal [of 1 "?p / ?d"]
    by (simp add: powr_neg_numeral round_even_def Let_def)
  have r: "binary64 ?q = ?q"
    using binary64_normal [of 1 ?q]
    by (simp add: powr_neg_numeral round_even_def Let_def)
  have first: "scaleValue ?d 0 ?d 0 3 = Some ?q"
    by (rule scaleValue_top [OF _ d _ three _ p _ q _ r]) simp_all
  let ?e = "1649322417245389 / 549755813888 :: real"
  let ?p' = "5154132553891841 / 17179869184 :: real"
  let ?q' = "7036874417766401 / 70368744177664 :: real"
  have e: "binary64 ?e = ?e"
    using binary64_normal [of 11 ?e]
    by (simp add: powr_neg_numeral round_even_def Let_def)
  have hundred: "binary64 100 = 100" by (simp add: binary64_numeral)
  have p': "binary64 (?e * 100) = ?p'"
    using binary64_normal [of 18 "?e * 100"]
    by (simp add: powr_neg_numeral round_even_def Let_def)
  have q': "binary64 (?p' / ?e) = ?q'"
    using binary64_normal [of 6 "?p' / ?e"]
    by (simp add: powr_neg_numeral round_even_def Let_def)
  have r': "binary64 ?q' = ?q'"
    using binary64_normal [of 6 ?q']
    by (simp add: powr_neg_numeral round_even_def Let_def)
  have second: "scaleValue ?e 0 ?e 0 100 = Some ?q'"
    by (rule scaleValue_top [OF _ e _ hundred _ p' _ q' _ r']) simp_all
  have doubles: "is_double ?d" "is_double 0" "is_double 3" "is_double ?e" "is_double 100"
    by (simp_all add: is_double_def d three e hundred binary64_zero)
  have sums: "?q = 3 + 1 / 2 ^ 51" "?q' = 100 + 1 / 2 ^ 46" by simp_all
  show ?thesis
    using tenth doubles first second unfolding sums by simp
qed


text \<open>The older definition has no result on a degenerate source range: the division by
  zero the newer one avoids.\<close>

lemma scaleValue_2024_degenerate: "scaleValue_2024 v a a tmin tmax = None"
  by (simp add: scaleValue_2024_def js_sub_def js_div_def js_number_def binary64_zero Let_def
      split: option.splits)


section \<open>Properties of makeHomeKitName\<close>

lemma dropWhile_fixed: "xs = [] \<or> \<not> P (hd xs) \<Longrightarrow> dropWhile P xs = xs"
  by (cases xs) auto

lemma dropTrailing_fixed: "xs = [] \<or> \<not> P (last xs) \<Longrightarrow> dropTrailing P xs = xs"
  by (cases "xs = []") (simp_all add: dropTrailing_def dropWhile_fixed hd_rev)

lemma dropTrailing_last: "dropTrailing P xs = [] \<or> \<not> P (last (dropTrailing P xs))"
proof (cases "dropWhile P (rev xs) = []")
  case True
  then show ?thesis by (simp add: dropTrailing_def)
next
  case False
  then have "\<not> P (hd (dropWhile P (rev xs)))" by (rule hd_dropWhile)
  with False show ?thesis by (simp add: dropTrailing_def last_rev)
qed

lemma dropTrailing_prefix: "\<exists>zs. xs = dropTrailing P xs @ zs"
proof -
  have "rev (takeWhile P (rev xs) @ dropWhile P (rev xs)) = xs"
    by (simp only: takeWhile_dropWhile_id rev_rev_ident)
  then have "rev (dropWhile P (rev xs)) @ rev (takeWhile P (rev xs)) = xs"
    by (simp only: rev_append)
  then have "xs = dropTrailing P xs @ rev (takeWhile P (rev xs))"
    by (simp only: dropTrailing_def)
  then show ?thesis ..
qed

lemma dropTrailing_hd:
  assumes "xs = [] \<or> \<not> P (hd xs)"
  shows "dropTrailing P xs = [] \<or> \<not> P (hd (dropTrailing P xs))"
proof (cases "dropTrailing P xs = []")
  case True
  then show ?thesis by simp
next
  case False
  obtain zs where zs: "xs = dropTrailing P xs @ zs" using dropTrailing_prefix by blast
  with False have "hd xs = hd (dropTrailing P xs)" by (metis hd_append2)
  moreover from zs False have "xs \<noteq> []" by auto
  ultimately show ?thesis using assms by simp
qed

lemma dropTrailing_set: "set (dropTrailing P xs) \<subseteq> set xs"
  using set_dropWhileD by (fastforce simp: dropTrailing_def)

lemma makeHomeKitName_kept: "c \<in> set (makeHomeKitName U s) \<Longrightarrow> \<not> stripped U c"
proof -
  assume "c \<in> set (makeHomeKitName U s)"
  then have "c \<in> set (dropWhile (not_alnum U) (filter (\<lambda>c. \<not> stripped U c) s))"
    using dropTrailing_set unfolding makeHomeKitName_def by fastforce
  then have "c \<in> set (filter (\<lambda>c. \<not> stripped U c) s)" by (rule set_dropWhileD)
  then show ?thesis by simp
qed

lemma makeHomeKitName_ends:
  "makeHomeKitName U s = []
   \<or> (\<not> not_alnum U (hd (makeHomeKitName U s)) \<and> \<not> not_alnum U (last (makeHomeKitName U s)))"
proof -
  let ?d = "dropWhile (not_alnum U) (filter (\<lambda>c. \<not> stripped U c) s)"
  have "?d = [] \<or> \<not> not_alnum U (hd ?d)" using hd_dropWhile by blast
  then have "dropTrailing (not_alnum U) ?d = []
             \<or> \<not> not_alnum U (hd (dropTrailing (not_alnum U) ?d))"
    by (rule dropTrailing_hd)
  moreover have "dropTrailing (not_alnum U) ?d = []
                 \<or> \<not> not_alnum U (last (dropTrailing (not_alnum U) ?d))"
    by (rule dropTrailing_last)
  ultimately show ?thesis unfolding makeHomeKitName_def by blast
qed

text \<open>
  Claim C9. \<^verbatim>\<open>makeHomeKitName\<close> is idempotent: sanitizing a sanitized name changes
  nothing, for every string and whatever the character classes are.
\<close>

theorem makeHomeKitName_idempotent:
  "makeHomeKitName U (makeHomeKitName U s) = makeHomeKitName U s"
proof -
  let ?t = "makeHomeKitName U s"
  have "filter (\<lambda>c. \<not> stripped U c) ?t = ?t"
    using makeHomeKitName_kept [of _ U s] by (simp add: filter_id_conv)
  moreover have "dropWhile (not_alnum U) ?t = ?t"
    using makeHomeKitName_ends [of U s] by (intro dropWhile_fixed) blast
  moreover have "dropTrailing (not_alnum U) ?t = ?t"
    using makeHomeKitName_ends [of U s] by (intro dropTrailing_fixed) blast
  ultimately show ?thesis
    by (simp add: makeHomeKitName_def [of U ?t])
qed

theorem makeHomeKitName_idempotent_witness:
  "makeHomeKitName ascii_classes ''  #Roof (East), 2!  '' = ''Roof East, 2''
   \<and> makeHomeKitName ascii_classes ''Roof East, 2'' = ''Roof East, 2''"
proof -
  have a: "makeHomeKitName ascii_classes ''  #Roof (East), 2!  '' = ''Roof East, 2''"
    by (simp add: makeHomeKitName_def dropTrailing_def stripped_def not_alnum_def
        ascii_classes_def)
  from makeHomeKitName_idempotent [of ascii_classes "''  #Roof (East), 2!  ''"] a
  show ?thesis by simp
qed




section \<open>Properties of normalization\<close>

subsection \<open>The loop over the flow nodes\<close>

lemma scale_node_None: "currentPower node = None \<Longrightarrow> scale_node m (Some node) = Some node"
  by (cases node) (simp add: scale_node_def)

lemma scale_node_Some:
  "currentPower node = Some p \<Longrightarrow>
   scale_node m (Some node) = Some (node\<lparr>currentPower := Some (p * m)\<rparr>)"
  by (simp add: scale_node_def)

lemma scale_key_absent: "get_node key pf = None \<Longrightarrow> scale_key key m pf = pf"
  by (cases key; cases pf) (simp_all add: scale_node_def)

lemma scale_key_present:
  "get_node key pf = Some node \<Longrightarrow>
   scale_key key m pf = set_node key (the (scale_node m (Some node))) pf"
  by (cases key) (simp_all add: scale_node_def)

lemma multiply_currentPower_cell:
  assumes "cells h a = Some pf"
  shows "multiply_currentPower m (Some a) h key =
           h\<lparr>cells := (cells h)(a := Some (scale_key key m pf))\<rparr>"
proof (cases "get_node key pf")
  case None
  then show ?thesis using assms
    by (simp add: multiply_currentPower_def scale_key_absent fun_upd_idem)
next
  case (Some node)
  show ?thesis
  proof (cases "currentPower node")
    case None
    then have "scale_key key m pf = pf"
      using Some by (cases key; cases pf) (simp_all add: scale_node_None)
    then show ?thesis using assms Some None
      by (simp add: multiply_currentPower_def fun_upd_idem)
  next
    case (Some p)
    then show ?thesis using assms \<open>get_node key pf = Some node\<close>
      by (simp add: multiply_currentPower_def scale_key_present scale_node_Some)
  qed
qed

lemma multiply_all:
  assumes "cells h a = Some pf"
  shows "foldl (multiply_currentPower m (Some a)) h [GRID, PV, LOAD] =
           h\<lparr>cells := (cells h)(a := Some (scale_reading m pf))\<rparr>"
proof -
  let ?h1 = "h\<lparr>cells := (cells h)(a := Some (scale_key GRID m pf))\<rparr>"
  let ?h2 = "?h1\<lparr>cells := (cells ?h1)(a := Some (scale_key PV m (scale_key GRID m pf)))\<rparr>"
  have 1: "multiply_currentPower m (Some a) h GRID = ?h1"
    using assms by (rule multiply_currentPower_cell)
  have c1: "cells ?h1 a = Some (scale_key GRID m pf)" by simp
  have 2: "multiply_currentPower m (Some a) ?h1 PV = ?h2"
    using c1 by (rule multiply_currentPower_cell)
  have c2: "cells ?h2 a = Some (scale_key PV m (scale_key GRID m pf))" by simp
  have 3: "multiply_currentPower m (Some a) ?h2 LOAD =
             ?h2\<lparr>cells := (cells ?h2)
                (a := Some (scale_key LOAD m (scale_key PV m (scale_key GRID m pf))))\<rparr>"
    using c2 by (rule multiply_currentPower_cell)
  have "scale_key LOAD m (scale_key PV m (scale_key GRID m pf)) = scale_reading m pf"
    by (simp add: scale_reading_def)
  then show ?thesis using 1 2 3 by simp
qed

lemma multiply_currentPower_None: "multiply_currentPower m None h key = h"
  by (simp add: multiply_currentPower_def)

subsection \<open>One cached site\<close>

lemma processData_site_absent:
  assumes "deref h (raw_powerflow data) = None"
  shows "processData_site cfg U (h, devs) data =
           (h, case raw_inventory data of
                 None \<Rightarrow> devs
               | Some inventory \<Rightarrow>
                   (case inverters inventory of
                      None \<Rightarrow> devs
                    | Some invs \<Rightarrow> foldl (store_device cfg U data None 1000) devs invs))"
  using assms
  by (simp add: processData_site_def structuredClone_def multiply_currentPower_None
      unitMultiplier_def deref_def)

lemma processData_site_present:
  assumes "deref h (raw_powerflow data) = Some pf"
  shows "processData_site cfg U (h, devs) data =
           (h\<lparr>cells := (cells h)
                 (next_addr h := Some (scale_reading (unitMultiplier (Some pf)) pf)),
              next_addr := Suc (next_addr h)\<rparr>,
            case raw_inventory data of
              None \<Rightarrow> devs
            | Some inventory \<Rightarrow>
                (case inverters inventory of
                   None \<Rightarrow> devs
                 | Some invs \<Rightarrow>
                     foldl (store_device cfg U data (Some (next_addr h))
                              (unitMultiplier (Some pf))) devs invs))"
proof -
  let ?h1 = "h\<lparr>cells := (cells h)(next_addr h := Some pf), next_addr := Suc (next_addr h)\<rparr>"
  have c: "cells ?h1 (next_addr h) = Some pf" by simp
  have "foldl (multiply_currentPower (unitMultiplier (Some pf)) (Some (next_addr h))) ?h1
          [GRID, PV, LOAD] =
        ?h1\<lparr>cells := (cells ?h1)
               (next_addr h := Some (scale_reading (unitMultiplier (Some pf)) pf))\<rparr>"
    using c by (rule multiply_all)
  then show ?thesis using assms
    by (simp add: processData_site_def structuredClone_def alloc_def deref_def Let_def
        split: option.splits)
qed

lemma update_mem: "(s, d) \<in> set (AList.update k v xs) \<Longrightarrow> (s, d) = (k, v) \<or> (s, d) \<in> set xs"
  by (induction xs) (auto split: if_splits)

lemma store_device_mem:
  "(s, d) \<in> set (foldl (store_device cfg U data pflow m) devs invs) \<Longrightarrow>
   (s, d) \<in> set devs \<or> (\<exists>i \<in> set invs. d = device_of cfg U data pflow m i)"
proof (induction invs arbitrary: devs)
  case Nil
  then show ?case by simp
next
  case (Cons i invs)
  from Cons.prems
  have "(s, d) \<in> set (foldl (store_device cfg U data pflow m)
                        (store_device cfg U data pflow m devs i) invs)"
    by simp
  then have "(s, d) \<in> set (store_device cfg U data pflow m devs i)
             \<or> (\<exists>j \<in> set invs. d = device_of cfg U data pflow m j)"
    by (rule Cons.IH)
  then show ?case
  proof
    assume "(s, d) \<in> set (store_device cfg U data pflow m devs i)"
    then have "(s, d) = (serialNumber (device_of cfg U data pflow m i),
                         device_of cfg U data pflow m i) \<or> (s, d) \<in> set devs"
      unfolding store_device_def Let_def by (rule update_mem)
    then show ?thesis by auto
  next
    assume "\<exists>j \<in> set invs. d = device_of cfg U data pflow m j"
    then show ?thesis by auto
  qed
qed

lemma site_devices_mem:
  assumes "(s, d) \<in> set (case raw_inventory data of
                 None \<Rightarrow> devs
               | Some inventory \<Rightarrow>
                   (case inverters inventory of
                      None \<Rightarrow> devs
                    | Some invs \<Rightarrow> foldl (store_device cfg U data pflow m) devs invs))"
  shows "(s, d) \<in> set devs \<or> (\<exists>i. d = device_of cfg U data pflow m i)"
  using assms store_device_mem by (fastforce split: option.splits)

lemma site_step:
  assumes step: "processData_site cfg U (h, devs) e = (h', devs')"
  shows "next_addr h \<le> next_addr h'"
    and "a < next_addr h \<Longrightarrow> cells h' a = cells h a"
    and "(s, d) \<in> set devs' \<Longrightarrow> (s, d) \<in> set devs \<or> derived h h' e d"
proof -
  show "next_addr h \<le> next_addr h'"
    using step
    by (cases "deref h (raw_powerflow e)")
      (auto simp: processData_site_absent processData_site_present)
  show "a < next_addr h \<Longrightarrow> cells h' a = cells h a"
    using step
    by (cases "deref h (raw_powerflow e)")
      (auto simp: processData_site_absent processData_site_present)
  show "(s, d) \<in> set devs' \<Longrightarrow> (s, d) \<in> set devs \<or> derived h h' e d"
  proof (cases "deref h (raw_powerflow e)")
    case None
    assume "(s, d) \<in> set devs'"
    with step None
    have "(s, d) \<in> set devs \<or> (\<exists>i. d = device_of cfg U e None 1000 i)"
      using site_devices_mem [where s = s and d = d and data = e and devs = devs
          and cfg = cfg and U = U and pflow = None and m = 1000]
      by (simp add: processData_site_absent)
    then show ?thesis using None
      by (auto simp: derived_def device_of_def unitMultiplier_def Let_def)
  next
    case (Some pf)
    assume "(s, d) \<in> set devs'"
    with step Some
    have "(s, d) \<in> set devs
          \<or> (\<exists>i. d = device_of cfg U e (Some (next_addr h)) (unitMultiplier (Some pf)) i)"
      using site_devices_mem [where s = s and d = d and data = e and devs = devs
          and cfg = cfg and U = U and pflow = "Some (next_addr h)"
          and m = "unitMultiplier (Some pf)"]
      by (simp add: processData_site_present)
    moreover from step Some
    have "h' = h\<lparr>cells := (cells h)
                   (next_addr h := Some (scale_reading (unitMultiplier (Some pf)) pf)),
                 next_addr := Suc (next_addr h)\<rparr>"
      by (simp add: processData_site_present)
    ultimately show ?thesis using Some
      by (auto simp: derived_def device_of_def Let_def)
  qed
qed

subsection \<open>The whole cache\<close>

lemma derived_later:
  assumes "derived h h1 e d"
    and "\<And>a. a < next_addr h1 \<Longrightarrow> cells h' a = cells h1 a"
    and "next_addr h1 \<le> next_addr h'"
  shows "derived h h' e d"
  using assms by (auto simp: derived_def Let_def split: option.splits)

lemma derived_earlier:
  assumes "derived h1 h' e d"
    and "deref h1 (raw_powerflow e) = deref h (raw_powerflow e)"
    and "next_addr h \<le> next_addr h1"
  shows "derived h h' e d"
  using assms by (auto simp: derived_def Let_def split: option.splits)

lemma processData_fold:
  assumes "foldl (processData_site cfg U) (h, devs) es = (h', devs')"
    and "\<forall>e \<in> set es. \<forall>a. raw_powerflow e = Some a \<longrightarrow> a < next_addr h"
  shows "next_addr h \<le> next_addr h'
         \<and> (\<forall>a < next_addr h. cells h' a = cells h a)
         \<and> (\<forall>(s, d) \<in> set devs'. (s, d) \<in> set devs \<or> (\<exists>e \<in> set es. derived h h' e d))"
  using assms
proof (induction es arbitrary: h devs)
  case Nil
  then show ?case by auto
next
  case (Cons e es)
  obtain h1 devs1 where step: "processData_site cfg U (h, devs) e = (h1, devs1)"
    by (cases "processData_site cfg U (h, devs) e") auto
  note s1 = site_step(1) [OF step] and s2 = site_step(2) [OF step]
    and s3 = site_step(3) [OF step]
  from Cons.prems(1) step
  have rest: "foldl (processData_site cfg U) (h1, devs1) es = (h', devs')" by simp
  have refs1: "\<forall>e' \<in> set es. \<forall>a. raw_powerflow e' = Some a \<longrightarrow> a < next_addr h1"
    using Cons.prems(2) s1 by fastforce
  note ih = Cons.IH [OF rest refs1]
  have i1: "next_addr h1 \<le> next_addr h'" using ih by simp
  have i2: "\<And>a. a < next_addr h1 \<Longrightarrow> cells h' a = cells h1 a" using ih by simp
  have i3: "(s, d) \<in> set devs1 \<or> (\<exists>e' \<in> set es. derived h1 h' e' d)"
    if "(s, d) \<in> set devs'" for s d
    using ih that by blast
  have a: "next_addr h \<le> next_addr h'" using s1 i1 by simp
  have b: "\<forall>a < next_addr h. cells h' a = cells h a"
    using s1 s2 i2 by (metis less_le_trans)
  have c: "(s, d) \<in> set devs \<or> (\<exists>e' \<in> set (e # es). derived h h' e' d)"
    if mem: "(s, d) \<in> set devs'" for s d
  proof -
    from i3 [OF mem] show ?thesis
    proof
      assume "(s, d) \<in> set devs1"
      then have "(s, d) \<in> set devs \<or> derived h h1 e d" by (rule s3)
      then show ?thesis
      proof
        assume "derived h h1 e d"
        then have "derived h h' e d" using i2 i1 by (rule derived_later)
        then show ?thesis by simp
      qed simp
    next
      assume "\<exists>e' \<in> set es. derived h1 h' e' d"
      then obtain e' where e': "e' \<in> set es" and d': "derived h1 h' e' d" by blast
      have "deref h1 (raw_powerflow e') = deref h (raw_powerflow e')"
      proof (cases "raw_powerflow e'")
        case None
        then show ?thesis by (simp add: deref_def)
      next
        case (Some a)
        with e' Cons.prems(2) have "a < next_addr h" by fastforce
        then show ?thesis using Some s2 by (simp add: deref_def)
      qed
      with d' have "derived h h' e' d" using s1 by (rule derived_earlier)
      with e' show ?thesis by auto
    qed
  qed
  from a b c show ?case by blast
qed

lemma processData_derived:
  assumes "processData cfg U h raw = (h', devs)"
    and "\<forall>e \<in> set (map snd raw). \<forall>a. raw_powerflow e = Some a \<longrightarrow> a < next_addr h"
  shows "next_addr h \<le> next_addr h'"
    and "a < next_addr h \<Longrightarrow> cells h' a = cells h a"
    and "(s, d) \<in> set devs \<Longrightarrow> \<exists>e \<in> set (map snd raw). derived h h' e d"
proof -
  note f = processData_fold [OF assms(1) [unfolded processData_def] assms(2)]
  show "next_addr h \<le> next_addr h'" using f by simp
  show "a < next_addr h \<Longrightarrow> cells h' a = cells h a" using f by simp
  show "(s, d) \<in> set devs \<Longrightarrow> \<exists>e \<in> set (map snd raw). derived h h' e d"
    using f by fastforce
qed



subsection \<open>The cache is left as it was\<close>

lemmas example_defs = example_config_def example_reading_def example_heap_def example_site_def
  example_inverters_def example_rawData_def

lemmas processData_defs = processData_def processData_site_def structuredClone_def alloc_def
  deref_def unitMultiplier_def multiply_currentPower_def store_device_def device_of_def
  toUpperCase_def toUpperCase_char_def replace_dash_def Let_def

lemma processData_frame:
  assumes "processData cfg U h raw = (h', devs)"
    and "\<forall>e \<in> set (map snd raw). \<forall>a. raw_powerflow e = Some a \<longrightarrow> a < next_addr h"
    and "e \<in> set (map snd raw)"
  shows "deref h' (raw_powerflow e) = deref h (raw_powerflow e)"
proof (cases "raw_powerflow e")
  case None
  then show ?thesis by (simp add: deref_def)
next
  case (Some a)
  with assms(2,3) have "a < next_addr h" by blast
  then have "cells h' a = cells h a" by (rule processData_derived(2) [OF assms(1,2)])
  with Some show ?thesis by (simp add: deref_def)
qed

text \<open>
  Claim C1. \<^verbatim>\<open>#processData\<close> leaves the cache of raw snapshots as it was: every object
  of the store that existed before the call is unchanged after it, so every cached
  reading is; each device record holds a clone allocated during the call, in which the
  multiplier of the unit has been applied once to the raw reading, whatever the number
  of inverters of the site. A second call on the same cache (a later cycle) finds the
  raw readings still unchanged and derives the same values again.
\<close>

theorem processData_preserves_rawData:
  assumes "processData cfg U h raw = (h', devs)"
    and "\<forall>e \<in> set (map snd raw). \<forall>a. raw_powerflow e = Some a \<longrightarrow> a < next_addr h"
    and "processData cfg U h' raw = (h'', devs'')"
  shows "(\<forall>a < next_addr h. cells h' a = cells h a)
       \<and> (\<forall>e \<in> set (map snd raw). deref h' (raw_powerflow e) = deref h (raw_powerflow e))
       \<and> (\<forall>(s, d) \<in> set devs. \<exists>e \<in> set (map snd raw). derived h h' e d)
       \<and> (\<forall>e \<in> set (map snd raw). deref h'' (raw_powerflow e) = deref h (raw_powerflow e))
       \<and> (\<forall>(s, d) \<in> set devs''. \<exists>e \<in> set (map snd raw). derived h h'' e d)"
proof -
  note first = processData_derived [OF assms(1,2)]
  have frame1: "deref h' (raw_powerflow e) = deref h (raw_powerflow e)"
    if "e \<in> set (map snd raw)" for e
    using assms(1,2) that by (rule processData_frame)
  have refs': "\<forall>e \<in> set (map snd raw). \<forall>a. raw_powerflow e = Some a \<longrightarrow> a < next_addr h'"
    using assms(2) first(1) by fastforce
  note second = processData_derived [OF assms(3) refs']
  have frame2: "deref h'' (raw_powerflow e) = deref h (raw_powerflow e)"
    if "e \<in> set (map snd raw)" for e
    using processData_frame [OF assms(3) refs' that] frame1 [OF that] by simp
  have again: "\<exists>e \<in> set (map snd raw). derived h h'' e d" if "(s, d) \<in> set devs''" for s d
  proof -
    from second(3) [OF that] obtain e where e: "e \<in> set (map snd raw)"
      and d: "derived h' h'' e d" by blast
    from d frame1 [OF e] first(1) have "derived h h'' e d" by (rule derived_earlier)
    with e show ?thesis by blast
  qed
  show ?thesis using first(2,3) frame1 frame2 again by blast
qed

theorem processData_preserves_rawData_witness:
  "deref (fst (processData example_config ascii_classes example_heap example_rawData)) (Some 0)
     = Some example_reading
   \<and> node_power PV
       (deref (fst (processData example_config ascii_classes example_heap example_rawData))
          (Some 1)) = Some 3500
   \<and> map (\<lambda>(s, d). (s, peakPower d, powerflow d))
       (snd (processData example_config ascii_classes example_heap example_rawData))
     = [(''7E12ABCD-34'', 5000, Some 1), (''7E12ABCD-35'', 5000, Some 1)]
   \<and> deref (fst (processData example_config ascii_classes
               (fst (processData example_config ascii_classes example_heap example_rawData))
               example_rawData)) (Some 0)
     = Some example_reading"
proof -
  let ?r1 = "processData example_config ascii_classes example_heap example_rawData"
  let ?r2 = "processData example_config ascii_classes (fst ?r1) example_rawData"
  have run: "?r1 = (fst ?r1, snd ?r1)" and again: "?r2 = (fst ?r2, snd ?r2)" by simp_all
  have refs: "\<forall>e \<in> set (map snd example_rawData).
                \<forall>a. raw_powerflow e = Some a \<longrightarrow> a < next_addr example_heap"
    by (simp add: example_rawData_def example_heap_def)
  note inst = processData_preserves_rawData [OF run refs again]
  have "\<forall>e \<in> set (map snd example_rawData).
          deref (fst ?r1) (raw_powerflow e) = deref example_heap (raw_powerflow e)"
    using inst by blast
  then have a: "deref (fst ?r1) (Some 0) = Some example_reading"
    by (simp add: example_rawData_def example_heap_def deref_def)
  have "\<forall>e \<in> set (map snd example_rawData).
          deref (fst ?r2) (raw_powerflow e) = deref example_heap (raw_powerflow e)"
    using inst by blast
  then have b: "deref (fst ?r2) (Some 0) = Some example_reading"
    by (simp add: example_rawData_def example_heap_def deref_def)
  have c: "node_power PV (deref (fst ?r1) (Some 1)) = Some 3500"
    by (simp add: example_defs processData_defs node_power_def)
  have d: "map (\<lambda>(s, d). (s, peakPower d, powerflow d)) (snd ?r1)
             = [(''7E12ABCD-34'', 5000, Some 1), (''7E12ABCD-35'', 5000, Some 1)]"
    by (simp add: example_defs processData_defs)
  from a b c d show ?thesis by simp
qed

subsection \<open>The unit multiplier\<close>

lemma toUpperCase_char_W:
  "toUpperCase_char c = CHR ''W'' \<longleftrightarrow> c = CHR ''W'' \<or> c = CHR ''w''"
  by (simp add: toUpperCase_char_def)

lemma toUpperCase_char_M:
  "toUpperCase_char c = CHR ''M'' \<longleftrightarrow> c = CHR ''M'' \<or> c = CHR ''m''"
  by (simp add: toUpperCase_char_def)

lemma toUpperCase_W: "toUpperCase u = ''W'' \<longleftrightarrow> u = ''W'' \<or> u = ''w''"
  by (auto simp add: toUpperCase_def toUpperCase_char_W)

lemma toUpperCase_MW:
  "toUpperCase u = ''MW'' \<longleftrightarrow> u = ''MW'' \<or> u = ''Mw'' \<or> u = ''mW'' \<or> u = ''mw''"
  by (auto simp add: toUpperCase_def toUpperCase_char_W toUpperCase_char_M)

lemma unitMultiplier_table:
  "unitMultiplier r =
     (case reading_unit r of
        None \<Rightarrow> 1000
      | Some u \<Rightarrow>
          if u = ''W'' \<or> u = ''w'' then 1
          else if u = ''MW'' \<or> u = ''Mw'' \<or> u = ''mW'' \<or> u = ''mw'' then 1000000
          else 1000)"
proof (cases "reading_unit r")
  case None
  then show ?thesis
    by (simp add: unitMultiplier_def reading_unit_def split: option.splits)
next
  case (Some u)
  then obtain pf where "r = Some pf" and "unit pf = Some u"
    by (auto simp: reading_unit_def split: option.splits)
  then have "unitMultiplier r =
      (if toUpperCase u = ''MW'' then 1000000 else if toUpperCase u = ''W'' then 1 else 1000)"
    by (simp add: unitMultiplier_def)
  then show ?thesis using Some
    by (simp only: toUpperCase_W toUpperCase_MW option.case) auto
qed

lemma node_power_scaled:
  "node_power key (Some (scale_reading m pf)) = map_option (\<lambda>p. p * m) (node_power key (Some pf))"
  by (cases key) (auto simp: node_power_def scale_reading_def scale_node_def split: option.splits)

lemma derived_powers:
  assumes "derived h h' e d"
  shows "node_power key (deref h' (powerflow d)) =
           map_option (\<lambda>p. p * unitMultiplier (deref h (raw_powerflow e)))
             (node_power key (deref h (raw_powerflow e)))"
proof (cases "deref h (raw_powerflow e)")
  case None
  with assms have "powerflow d = None" by (simp add: derived_def)
  with None show ?thesis by (simp add: deref_def node_power_def)
next
  case (Some pf)
  with assms obtain a where "powerflow d = Some a"
    and "cells h' a = Some (scale_reading (unitMultiplier (Some pf)) pf)"
    by (auto simp: derived_def Let_def split: option.splits)
  then have "deref h' (powerflow d) = Some (scale_reading (unitMultiplier (Some pf)) pf)"
    by (simp add: deref_def)
  with Some show ?thesis by (simp add: node_power_scaled)
qed

text \<open>
  Claim C4. The multiplier of normalization is 1 for the unit W, 1000000 for MW, and
  1000 for kW, for any other string and when the unit (or the whole reading) is missing;
  the unit is compared without regard to the case of its letters. Every device record
  that \<^verbatim>\<open>#processData\<close> returns comes from a cached site, its peak power is the site's
  peak power times the multiplier of the site's unit, and the \<^verbatim>\<open>currentPower\<close> of each
  flow node of its reading is the raw one times the same multiplier.
\<close>

theorem unit_multiplier_applied:
  assumes "processData cfg U h raw = (h', devs)"
    and "\<forall>e \<in> set (map snd raw). \<forall>a. raw_powerflow e = Some a \<longrightarrow> a < next_addr h"
    and "(s, d) \<in> set devs"
  shows "\<exists>e \<in> set (map snd raw). \<exists>m.
           m = (case reading_unit (deref h (raw_powerflow e)) of
                  None \<Rightarrow> 1000
                | Some u \<Rightarrow>
                    if u = ''W'' \<or> u = ''w'' then 1
                    else if u = ''MW'' \<or> u = ''Mw'' \<or> u = ''mW'' \<or> u = ''mw'' then 1000000
                    else 1000)
           \<and> siteid d = site_id (raw_site e)
           \<and> peakPower d = site_peakPower (raw_site e) * m
           \<and> (\<forall>key. node_power key (deref h' (powerflow d)) =
                      map_option (\<lambda>p. p * m) (node_power key (deref h (raw_powerflow e))))"
proof -
  from processData_derived(3) [OF assms]
  obtain e where e: "e \<in> set (map snd raw)" and d: "derived h h' e d" by blast
  let ?m = "unitMultiplier (deref h (raw_powerflow e))"
  have "siteid d = site_id (raw_site e)" and "peakPower d = site_peakPower (raw_site e) * ?m"
    using d by (simp_all add: derived_def Let_def)
  moreover have "\<forall>key. node_power key (deref h' (powerflow d)) =
                   map_option (\<lambda>p. p * ?m) (node_power key (deref h (raw_powerflow e)))"
    using derived_powers [OF d] by simp
  ultimately show ?thesis using e unitMultiplier_table [of "deref h (raw_powerflow e)"]
    by (intro bexI [of _ e] exI [of _ ?m]) simp_all
qed

theorem unit_multiplier_applied_witness:
  "\<exists>e \<in> set (map snd example_rawData).
     peakPower (snd (hd (snd (processData example_config ascii_classes example_heap
                               example_rawData))))
       = site_peakPower (raw_site e) * 1000
     \<and> node_power PV (deref (fst (processData example_config ascii_classes example_heap
                                   example_rawData))
                         (powerflow (snd (hd (snd (processData example_config ascii_classes
                                                    example_heap example_rawData))))))
       = map_option (\<lambda>p. p * 1000) (node_power PV (deref example_heap (raw_powerflow e)))"
proof -
  let ?r = "processData example_config ascii_classes example_heap example_rawData"
  have run: "?r = (fst ?r, snd ?r)" by simp
  have refs: "\<forall>e \<in> set (map snd example_rawData).
                \<forall>a. raw_powerflow e = Some a \<longrightarrow> a < next_addr example_heap"
    by (simp add: example_rawData_def example_heap_def)
  have "snd ?r \<noteq> []" by (simp add: example_defs processData_defs)
  then have mem: "(fst (hd (snd ?r)), snd (hd (snd ?r))) \<in> set (snd ?r)" by simp
  have u: "reading_unit (deref example_heap (Some 0)) = Some ''kW''"
    by (simp add: reading_unit_def deref_def example_heap_def example_reading_def)
  from unit_multiplier_applied [OF run refs mem]
  show ?thesis by (simp add: example_rawData_def u)
qed


subsection \<open>The description of an inverter\<close>

lemma inverter_description_no_city:
  "inverter_description U None nm = makeHomeKitName U nm"
  "inverter_description U (Some []) nm = makeHomeKitName U nm"
  by (simp_all add: inverter_description_def)

lemma inverter_description_both:
  "nm \<noteq> [] \<Longrightarrow> city \<noteq> [] \<Longrightarrow>
   inverter_description U (Some city) nm = makeHomeKitName U (nm @ '' - '' @ city)"
  by (simp add: inverter_description_def)

lemma inverter_description_no_name:
  "city \<noteq> [] \<Longrightarrow>
   inverter_description U (Some city) [] = makeHomeKitName U (city @ '' - '' @ city)"
  by (simp add: inverter_description_def)

text \<open>The older \<^verbatim>\<open>#processData\<close> of \<^verbatim>\<open>src/src/index.js\<close> gives the city alone.\<close>

lemma inverter_description_2024_no_name:
  "inverter_description_2024 U (Some city) [] = makeHomeKitName U city"
  by (simp add: inverter_description_2024_def)

lemma inverter_description_2024_named:
  "nm \<noteq> [] \<Longrightarrow> inverter_description_2024 U city nm = inverter_description U city nm"
  by (simp add: inverter_description_2024_def inverter_description_def)

text \<open>
  Claim C6, at the input where the code departs from it. For an inverter whose name is
  empty, in a site whose city is Sydney, \<^verbatim>\<open>#processData\<close> of \<^verbatim>\<open>src/unnamed/part_000\<close>
  describes the device as \<open>Sydney - Sydney\<close>: the city has become the description and is
  then appended to itself, where the claim gives the city alone. The same lines of
  \<^verbatim>\<open>src/src/index.js\<close> empty the location first and give \<open>Sydney\<close>. A named inverter of
  the same site is \<open>Roof - Sydney\<close> in both.
\<close>

theorem description_repeats_city:
  "map (\<lambda>(s, d). (s, description d))
       (zip (map inv_name example_inverters)
            (map snd (snd (processData example_config ascii_classes example_heap
                             example_rawData))))
     = [(''Roof'', ''Roof - Sydney''), ('''', ''Sydney - Sydney'')]
   \<and> inverter_description ascii_classes (Some ''Sydney'') '''' = ''Sydney - Sydney''
   \<and> inverter_description_2024 ascii_classes (Some ''Sydney'') '''' = ''Sydney''"
  by (simp add: example_defs processData_defs inverter_description_def
      inverter_description_2024_def makeHomeKitName_def dropTrailing_def stripped_def
      not_alnum_def ascii_classes_def)



section \<open>Properties of fetchWrapper\<close>

lemma fetchWrapper_retry:
  assumes "\<not> ((http_method \<noteq> ''get'' \<and> http_method \<noteq> ''post'') \<or> url = [])"
    and "failed (net n)" and "1 < retry_budget options"
  shows "fetchWrapper net n http_method url options =
           (let (res, delays) =
                  fetchWrapper net (Suc n) http_method url
                    (options\<lparr>retry := Some (retry_budget options - 1),
                             retryCount := Some (retries_done options + 1)\<rparr>)
            in (res, 500 * 2 ^ retries_done options # delays))"
proof (cases "net n")
  case Rejected
  show ?thesis
    by (subst fetchWrapper.simps) (simp only: assms(1,3) Rejected if_False if_True Let_def
        fetch_outcome.case add_diff_cancel_right' simp_thms)
next
  case (Fulfilled response)
  with assms(2) have "ok response = False" by simp
  then show ?thesis
    by (subst fetchWrapper.simps) (simp only: assms(1,3) Fulfilled if_False if_True Let_def
        fetch_outcome.case add_diff_cancel_right' simp_thms)
qed

lemma fetchWrapper_stop:
  assumes "\<not> ((http_method \<noteq> ''get'' \<and> http_method \<noteq> ''post'') \<or> url = [])"
    and "\<not> (failed (net n) \<and> 1 < retry_budget options)"
  shows "fetchWrapper net n http_method url options =
           (settle (net n) (retries_done options + 1), [])"
proof (cases "net n")
  case Rejected
  with assms(2) have "\<not> 1 < retry_budget options" by simp
  then show ?thesis
    by (subst fetchWrapper.simps) (simp only: assms(1) Rejected if_False Let_def
        fetch_outcome.case settle_def simp_thms)
next
  case (Fulfilled response)
  show ?thesis
  proof (cases "ok response = False")
    case True
    with assms(2) Fulfilled have "\<not> 1 < retry_budget options" by simp
    then show ?thesis using True
      by (subst fetchWrapper.simps) (simp only: assms(1) Fulfilled if_False if_True Let_def
          fetch_outcome.case settle_def simp_thms)
  next
    case False
    then show ?thesis
      by (subst fetchWrapper.simps) (simp only: assms(1) Fulfilled if_False Let_def
          fetch_outcome.case settle_def simp_thms)
  qed
qed

lemma backoff_list:
  "500 * 2 ^ c # map (\<lambda>k. 500 * 2 ^ (Suc c + k)) [0..<m]
     = map (\<lambda>k. 500 * 2 ^ (c + k)) [0..<Suc m]" for c m :: nat
  by (subst map_upt_Suc) simp

lemma retry_budget_pos: "1 \<le> retry_budget options"
  by (simp add: retry_budget_def split: option.splits)

lemma fetchWrapper_trace:
  assumes "\<not> ((http_method \<noteq> ''get'' \<and> http_method \<noteq> ''post'') \<or> url = [])"
    and "fetchWrapper net n http_method url options = (res, delays)"
  shows "int (length delays) \<le> retry_budget options - 1
         \<and> map (\<lambda>k. 500 * 2 ^ (retries_done options + k)) [0..<length delays] = delays
         \<and> (\<forall>k < length delays. failed (net (n + k)))
         \<and> (int (length delays) < retry_budget options - 1
              \<longrightarrow> \<not> failed (net (n + length delays)))
         \<and> res = settle (net (n + length delays)) (retries_done options + length delays + 1)"
  using assms
proof (induction net n http_method url options arbitrary: res delays rule: fetchWrapper.induct)
  case (1 net n http_method url options)
  note valid = "1.prems"(1) and run = "1.prems"(2)
  show ?case
  proof (cases "failed (net n) \<and> 1 < retry_budget options")
    case False
    have "fetchWrapper net n http_method url options =
            (settle (net n) (retries_done options + 1), [])"
      using valid False by (rule fetchWrapper_stop)
    with run have "(res, delays) = (settle (net n) (retries_done options + 1), [])"
      by (simp only:)
    then have "res = settle (net n) (retries_done options + 1)" and "delays = []"
      by simp_all
    then show ?thesis using False retry_budget_pos [of options] by auto
  next
    case True
    let ?options' = "options\<lparr>retry := Some (retry_budget options - 1),
                               retryCount := Some (retries_done options + 1)\<rparr>"
    obtain res' delays' where
      inner: "fetchWrapper net (Suc n) http_method url ?options' = (res', delays')"
      by (cases "fetchWrapper net (Suc n) http_method url ?options'") auto
    have budget': "retry_budget ?options' = retry_budget options - 1"
      using True by (simp add: retry_budget_def)
    have done': "retries_done ?options' = retries_done options + 1"
      by (simp add: retries_done_def)
    have ih: "int (length delays') \<le> retry_budget ?options' - 1
         \<and> map (\<lambda>k. 500 * 2 ^ (retries_done ?options' + k)) [0..<length delays'] = delays'
         \<and> (\<forall>k < length delays'. failed (net (Suc n + k)))
         \<and> (int (length delays') < retry_budget ?options' - 1
              \<longrightarrow> \<not> failed (net (Suc n + length delays')))
         \<and> res' = settle (net (Suc n + length delays'))
                     (retries_done ?options' + length delays' + 1)"
    proof (cases "net n")
      case Rejected
      show ?thesis
        using "1.IH"(1) [OF valid refl refl Rejected _ valid inner] True
        by (simp only: budget' done') simp
    next
      case (Fulfilled response)
      with True have "ok response = False" by simp
      then show ?thesis
        using "1.IH"(2) [OF valid refl refl Fulfilled _ _ valid inner] True
        by (simp only: budget' done') simp
    qed
    have "fetchWrapper net n http_method url options =
            (let (res, delays) = fetchWrapper net (Suc n) http_method url ?options'
             in (res, 500 * 2 ^ retries_done options # delays))"
      using valid True by (intro fetchWrapper_retry) blast+
    also have "\<dots> = (res', 500 * 2 ^ retries_done options # delays')"
      by (simp only: inner Let_def prod.case)
    finally have "(res, delays) = (res', 500 * 2 ^ retries_done options # delays')"
      using run by (simp only:)
    then have res: "res = res'" and delays: "delays = 500 * 2 ^ retries_done options # delays'"
      by simp_all
    have a: "int (length delays) \<le> retry_budget options - 1"
      using ih budget' delays by simp
    have "map (\<lambda>k. 500 * 2 ^ (Suc (retries_done options) + k)) [0..<length delays'] = delays'"
      using ih by (simp only: done' Suc_eq_plus1)
    then have "500 * 2 ^ retries_done options
                 # map (\<lambda>k. 500 * 2 ^ (Suc (retries_done options) + k)) [0..<length delays']
               = delays"
      by (simp only: delays)
    then have b: "map (\<lambda>k. 500 * 2 ^ (retries_done options + k)) [0..<length delays] = delays"
      by (simp only: backoff_list delays length_Cons)
    have c: "\<forall>k < length delays. failed (net (n + k))"
    proof (intro allI impI)
      fix k assume k: "k < length delays"
      show "failed (net (n + k))"
      proof (cases k)
        case 0
        then show ?thesis using True by simp
      next
        case (Suc j)
        with k delays have "j < length delays'" by simp
        with ih have "failed (net (Suc n + j))" by blast
        then show ?thesis using Suc by simp
      qed
    qed
    have d: "int (length delays) < retry_budget options - 1
              \<longrightarrow> \<not> failed (net (n + length delays))"
      using ih budget' delays by simp
    have e: "res = settle (net (n + length delays))
                     (retries_done options + length delays + 1)"
      using ih done' delays res by simp
    from a b c d e show ?thesis by blast
  qed
qed

text \<open>
  Claim C5. A call of \<^verbatim>\<open>fetchWrapper\<close> with a retry budget \<open>maxRetries \<ge> 1\<close> (the option
  \<^verbatim>\<open>retry\<close>), on options that no earlier call has used, makes at most \<open>maxRetries - 1\<close>
  attempts after the first. Attempt \<open>a\<close>, counted from 1, is followed by another one only
  when it failed (a rejected promise or a response that is not ok), and then after a
  delay of exactly \<open>500 * 2 ^ (a - 1)\<close> milliseconds; while the budget lasts every failure
  is followed by another attempt, and the call settles to what its last attempt gave.
\<close>

theorem fetchWrapper_backoff:
  assumes "http_method = ''get'' \<or> http_method = ''post''" and "url \<noteq> []"
    and "retry options = Some maxRetries" and "1 \<le> maxRetries"
    and "retryCount options = None"
    and "fetchWrapper net 0 http_method url options = (res, delays)"
  shows "int (length delays) \<le> maxRetries - 1
         \<and> (\<forall>a. 1 \<le> a \<and> a \<le> length delays \<longrightarrow>
               failed (net (a - 1)) \<and> delays ! (a - 1) = 500 * 2 ^ (a - 1))
         \<and> (int (length delays) < maxRetries - 1 \<longrightarrow> \<not> failed (net (length delays)))
         \<and> res = settle (net (length delays)) (length delays + 1)"
proof -
  have budget: "retry_budget options = maxRetries"
    using assms(3,4) by (simp add: retry_budget_def)
  have fresh: "retries_done options = 0"
    using assms(5) by (simp add: retries_done_def)
  have valid: "\<not> ((http_method \<noteq> ''get'' \<and> http_method \<noteq> ''post'') \<or> url = [])"
    using assms(1,2) by blast
  note t = fetchWrapper_trace [OF valid assms(6)]
  have "map (\<lambda>k. 500 * 2 ^ k) [0..<length delays] = delays"
    using t fresh by simp
  then have "delays ! k = map (\<lambda>k. 500 * 2 ^ k) [0..<length delays] ! k" for k
    by (simp only:)
  then have nth: "delays ! k = 500 * 2 ^ k" if "k < length delays" for k
    using that by (simp only: nth_map_upt minus_nat.diff_0 add_0)
  have "failed (net (a - 1)) \<and> delays ! (a - 1) = 500 * 2 ^ (a - 1)"
    if "1 \<le> a \<and> a \<le> length delays" for a
  proof -
    from that have "a - 1 < length delays" by arith
    then show ?thesis using t nth by auto
  qed
  then show ?thesis using t budget fresh by simp
qed

theorem fetchWrapper_backoff_witness:
  "fetchWrapper (\<lambda>n. if n < 3 then Fulfilled \<lparr>ok = False, response_status = 503\<rparr> else Rejected)
     0 ''get'' ''https://monitoringapi.solaredge.com/sites/list''
     \<lparr>retry = Some 4, retryCount = None\<rparr>
   = (Thrown (TransportError 4), [500, 1000, 2000])
   \<and> int (length [500::nat, 1000, 2000]) \<le> 4 - 1
   \<and> [500::nat, 1000, 2000] ! (3 - 1) = 500 * 2 ^ (3 - 1)"
proof -
  let ?net = "\<lambda>n::nat. if n < 3 then Fulfilled \<lparr>ok = False, response_status = 503\<rparr> else Rejected"
  let ?options = "\<lparr>retry = Some 4, retryCount = None\<rparr>"
  have run: "fetchWrapper ?net 0 ''get'' ''https://monitoringapi.solaredge.com/sites/list''
               ?options = (Thrown (TransportError 4), [500, 1000, 2000])"
    by (simp add: fetchWrapper.simps retry_budget_def retries_done_def)
  have m: "''get'' = ''get'' \<or> ''get'' = ''post''"
    and u: "''https://monitoringapi.solaredge.com/sites/list'' \<noteq> []" by simp_all
  have r: "retry ?options = Some 4" and o: "(1::int) \<le> 4" and c: "retryCount ?options = None"
    by simp_all
  from fetchWrapper_backoff [OF m u r o c run]
  have "int (length [500::nat, 1000, 2000]) \<le> 4 - 1
        \<and> [500::nat, 1000, 2000] ! (3 - 1) = 500 * 2 ^ (3 - 1)"
    by simp
  with run show ?thesis by simp
qed



section \<open>Properties of the reconnect loop\<close>

lemma reconnectLoop_failure:
  assumes "authorised conn = False"
  shows "reconnectLoop False (d, conn) = (min (d * 2) 60000, conn)"
proof -
  have "conn\<lparr>authorised := False\<rparr> = conn" using assms by (cases conn) simp
  then show ?thesis using assms by (simp add: reconnectLoop_def connect_def)
qed

lemma reconnectLoop_success:
  assumes "authorised conn = False"
  shows "reconnectLoop True (d, conn) = (15000, conn\<lparr>authorised := True\<rparr>)"
  using assms by (simp add: reconnectLoop_def connect_def)

lemma reconnectLoop_authorised:
  assumes "authorised conn = True"
  shows "reconnectLoop succeeded (d, conn) = (15000, conn)"
  using assms by (simp add: reconnectLoop_def)

lemma reconnect_delays_capped:
  assumes "authorised conn = False" and "30000 \<le> d"
  shows "reconnect_delays (d, conn) (replicate n False) = replicate n 60000"
  using assms(2)
proof (induction n arbitrary: d)
  case 0
  then show ?case by simp
next
  case (Suc n)
  have "min (d * 2) 60000 = 60000" using Suc.prems by simp
  moreover have "reconnect_delays (60000, conn) (replicate n False) = replicate n 60000"
    by (rule Suc.IH) simp
  ultimately show ?case
    by (simp add: reconnectLoop_failure [OF assms(1)] Let_def)
qed

text \<open>
  Claim C2, as the code has it. From the start (the delay variable at 15000, the
  connection not authorised), the timers after \<open>n + 1\<close> consecutive failures are
  30000, then 60000 \<open>n\<close> times: the variable is doubled before the first timer is set, so
  15000 is never the delay after a failure. After a success the delay is 15000, and it
  stays 15000 on every later run, in which no authorisation is attempted any more.
\<close>

theorem reconnect_backoff:
  assumes "authorised conn = False"
  shows "reconnect_delays (15000, conn) (replicate (Suc n) False) = 30000 # replicate n 60000
         \<and> reconnectLoop True (d, conn) = (15000, conn\<lparr>authorised := True\<rparr>)
         \<and> reconnectLoop succeeded (d, conn\<lparr>authorised := True\<rparr>)
             = (15000, conn\<lparr>authorised := True\<rparr>)"
proof -
  have "reconnect_delays (30000, conn) (replicate n False) = replicate n 60000"
    using assms by (rule reconnect_delays_capped) simp
  then have "reconnect_delays (15000, conn) (replicate (Suc n) False)
               = 30000 # replicate n 60000"
    by (simp add: reconnectLoop_failure [OF assms] Let_def)
  moreover have "reconnectLoop succeeded (d, conn\<lparr>authorised := True\<rparr>)
                   = (15000, conn\<lparr>authorised := True\<rparr>)"
    by (rule reconnectLoop_authorised) simp
  ultimately show ?thesis using reconnectLoop_success [OF assms] by simp
qed

theorem reconnect_backoff_witness:
  "authorised (new_connection ''KEY'') = False
   \<and> reconnect_delays (15000, new_connection ''KEY'') [False, False, False, False]
       = [30000, 60000, 60000, 60000]
   \<and> reconnect_delays (15000, new_connection ''KEY'') [False, False, True, False]
       = [30000, 60000, 15000, 15000]"
proof -
  have a: "authorised (new_connection ''KEY'') = False" by (simp add: new_connection_def)
  have "replicate (Suc 3) False = [False, False, False, False]"
    by (simp add: numeral_3_eq_3)
  moreover have "30000 # replicate 3 (60000::nat) = [30000, 60000, 60000, 60000]"
    by (simp add: numeral_3_eq_3)
  ultimately
  have "reconnect_delays (15000, new_connection ''KEY'') [False, False, False, False]
          = [30000, 60000, 60000, 60000]"
    using reconnect_backoff [OF a, of 3] by simp
  moreover
  have "reconnect_delays (15000, new_connection ''KEY'') [False, False, True, False]
          = [30000, 60000, 15000, 15000]"
    by (simp add: reconnectLoop_def connect_def new_connection_def Let_def)
  ultimately show ?thesis using a by simp
qed

text \<open>Against the sequence of the claim: the delay after the first failure is 30000, not
  15000, and 30000 is not the delay after the second one.\<close>

theorem reconnect_backoff_counterexample:
  "reconnect_delays (15000, new_connection ''KEY'') [False, False, False, False]
     \<noteq> [15000, 30000, 60000, 60000]"
  by (simp add: reconnectLoop_def connect_def new_connection_def Let_def)

section \<open>Properties of the device registry\<close>

lemma instantiated_append: "instantiated (xs @ ys) = instantiated xs @ instantiated ys"
  by (induction xs rule: instantiated.induct) simp_all

lemma track_device_calls:
  "\<exists>new. calls (track_device snk p d) = calls p @ new
         \<and> instantiated new =
             (if trackedDevices p (serialNumber d) = None \<and> excluded d = False
              then [serialNumber d] else [])"
  by (auto simp: track_device_def Let_def instantiated_append split: option.splits)

lemma track_device_keeps:
  "trackedDevices p s \<noteq> None \<Longrightarrow> trackedDevices (track_device snk p d) s \<noteq> None"
  by (auto simp: track_device_def Let_def split: option.splits)

lemma track_device_other:
  "serialNumber d \<noteq> s \<Longrightarrow> trackedDevices (track_device snk p d) s = trackedDevices p s"
  by (auto simp: track_device_def Let_def split: option.splits)

lemma track_device_tracks:
  "trackedDevices (track_device snk p d) (serialNumber d) \<noteq> None"
  by (cases "excluded d") (auto simp: track_device_def Let_def split: option.splits)

lemma registry_tracked:
  assumes "trackedDevices p s \<noteq> None"
  shows "\<exists>new. calls (foldl (track_device snk) p ds) = calls p @ new
               \<and> s \<notin> set (instantiated new)"
  using assms
proof (induction ds arbitrary: p)
  case Nil
  then show ?case by simp
next
  case (Cons d ds)
  obtain n1 where n1: "calls (track_device snk p d) = calls p @ n1"
    and i1: "instantiated n1 =
               (if trackedDevices p (serialNumber d) = None \<and> excluded d = False
                then [serialNumber d] else [])"
    using track_device_calls by blast
  have "s \<notin> set (instantiated n1)" using i1 Cons.prems by auto
  moreover have "trackedDevices (track_device snk p d) s \<noteq> None"
    using Cons.prems by (rule track_device_keeps)
  then obtain n2 where "calls (foldl (track_device snk) (track_device snk p d) ds)
                          = calls (track_device snk p d) @ n2"
    and "s \<notin> set (instantiated n2)"
    using Cons.IH by blast
  ultimately show ?case using n1
    by (intro exI [of _ "n1 @ n2"]) (simp add: instantiated_append)
qed

lemma registry_others:
  assumes "\<forall>d \<in> set ds. serialNumber d \<noteq> s"
  shows "\<exists>new. calls (foldl (track_device snk) p ds) = calls p @ new
               \<and> s \<notin> set (instantiated new)
               \<and> trackedDevices (foldl (track_device snk) p ds) s = trackedDevices p s"
  using assms
proof (induction ds arbitrary: p)
  case Nil
  then show ?case by simp
next
  case (Cons d ds)
  from Cons.prems have d: "serialNumber d \<noteq> s" and rest: "\<forall>d \<in> set ds. serialNumber d \<noteq> s"
    by simp_all
  obtain n1 where n1: "calls (track_device snk p d) = calls p @ n1"
    and i1: "instantiated n1 =
               (if trackedDevices p (serialNumber d) = None \<and> excluded d = False
                then [serialNumber d] else [])"
    using track_device_calls by blast
  have s1: "s \<notin> set (instantiated n1)" using i1 d by auto
  obtain n2 where n2: "calls (foldl (track_device snk) (track_device snk p d) ds)
                          = calls (track_device snk p d) @ n2"
    and s2: "s \<notin> set (instantiated n2)"
    and t2: "trackedDevices (foldl (track_device snk) (track_device snk p d) ds) s
               = trackedDevices (track_device snk p d) s"
    using Cons.IH [OF rest] by blast
  show ?case using n1 n2 s1 s2 t2 track_device_other [OF d]
    by (intro exI [of _ "n1 @ n2"]) (simp add: instantiated_append)
qed

text \<open>
  Claim C7. Let the registry be given any sequence of device records, over any number of
  cycles, and let the first record of a serial number it has not tracked yet carry
  \<open>excluded = true\<close>. Then none of the calls the registry makes while it processes the
  whole sequence creates a device of that serial number, whatever the \<open>excluded\<close> of the
  later records of that serial number is.
\<close>

theorem excluded_never_instantiated:
  assumes "trackedDevices p s = None"
    and "\<forall>d \<in> set before. serialNumber d \<noteq> s"
    and "serialNumber d0 = s" and "excluded d0 = True"
  shows "\<exists>new. calls (foldl (track_device snk) p (before @ d0 # later)) = calls p @ new
               \<and> s \<notin> set (instantiated new)"
proof -
  let ?p1 = "foldl (track_device snk) p before"
  let ?p2 = "track_device snk ?p1 d0"
  obtain n1 where n1: "calls ?p1 = calls p @ n1" and s1: "s \<notin> set (instantiated n1)"
    using registry_others [OF assms(2)] by blast
  obtain n2 where n2: "calls ?p2 = calls ?p1 @ n2"
    and i2: "instantiated n2 =
               (if trackedDevices ?p1 (serialNumber d0) = None \<and> excluded d0 = False
                then [serialNumber d0] else [])"
    using track_device_calls by blast
  have s2: "s \<notin> set (instantiated n2)" using i2 assms(4) by simp
  have "trackedDevices ?p2 s \<noteq> None"
    using track_device_tracks [of snk ?p1 d0] assms(3) by simp
  then obtain n3 where n3: "calls (foldl (track_device snk) ?p2 later) = calls ?p2 @ n3"
    and s3: "s \<notin> set (instantiated n3)"
    using registry_tracked by blast
  show ?thesis using n1 n2 n3 s1 s2 s3
    by (intro exI [of _ "n1 @ n2 @ n3"]) (simp add: instantiated_append)
qed

theorem excluded_never_instantiated_witness:
  "calls (foldl (track_device example_sink) example_platform
            ([] @ example_device\<lparr>excluded := True\<rparr> # [example_device, example_device]))
     = [Update ''uuid-7E12ABCD-34'' example_device, Update ''uuid-7E12ABCD-34'' example_device]
   \<and> ''7E12ABCD-34'' \<notin> set (instantiated
        (calls (foldl (track_device example_sink) example_platform
                  ([] @ example_device\<lparr>excluded := True\<rparr> # [example_device, example_device]))))"
proof -
  let ?d0 = "example_device\<lparr>excluded := True\<rparr>"
  have a: "trackedDevices example_platform ''7E12ABCD-34'' = None"
    by (simp add: example_platform_def)
  have b: "\<forall>d \<in> set []. serialNumber d \<noteq> ''7E12ABCD-34''" by simp
  have c: "serialNumber ?d0 = ''7E12ABCD-34''" and e: "excluded ?d0 = True"
    by (simp_all add: example_device_def)
  have f: "calls example_platform = []" by (simp add: example_platform_def)
  from excluded_never_instantiated [OF a b c e, of example_sink "[example_device, example_device]"]
  have "''7E12ABCD-34'' \<notin> set (instantiated
          (calls (foldl (track_device example_sink) example_platform
                    ([] @ ?d0 # [example_device, example_device]))))"
    by (auto simp: f)
  moreover
  have "calls (foldl (track_device example_sink) example_platform
                 ([] @ ?d0 # [example_device, example_device]))
          = [Update ''uuid-7E12ABCD-34'' example_device,
             Update ''uuid-7E12ABCD-34'' example_device]"
    by (simp add: track_device_def example_sink_def example_platform_def example_device_def
        truthy_def Let_def)
  ultimately show ?thesis by simp
qed


section \<open>Properties of updateDevice\<close>

lemma flow_writes_set:
  "set (concat (map flow_writes flows)) =
     (if \<exists>f \<in> set flows. exporting f
      then {ChargingState CHARGING, StatusLowBattery BATTERY_LEVEL_NORMAL} else {})
     \<union> (if \<exists>f \<in> set flows. importing f
        then {ChargingState NOT_CHARGING, StatusLowBattery BATTERY_LEVEL_LOW} else {})"
  by (induction flows) (auto simp: flow_writes_def)

lemma last_ChargingState_append:
  "last_ChargingState (xs @ ys) =
     (case last_ChargingState ys of None \<Rightarrow> last_ChargingState xs | Some v \<Rightarrow> Some v)"
  by (induction xs rule: last_ChargingState.induct) (auto split: option.splits)

lemma last_ChargingState_written:
  "last_ChargingState xs = Some v \<Longrightarrow> ChargingState v \<in> set xs"
  by (induction xs arbitrary: v rule: last_ChargingState.induct) (auto split: option.splits)

lemma last_ChargingState_none:
  "last_ChargingState xs = None \<Longrightarrow> ChargingState v \<notin> set xs"
  by (induction xs rule: last_ChargingState.induct) (auto split: option.splits)

lemma writes_StatusLowBattery_set:
  "set (writes_StatusLowBattery xs) = {v. StatusLowBattery v \<in> set xs}"
  by (induction xs rule: writes_StatusLowBattery.induct) auto

lemma updateDevice_result:
  assumes "outletService this = Some outlet" and "batteryService this = Some battery"
    and "lightService this = Some light"
    and "deref h (powerflow deviceData) = Some pf" and "pf_PV pf = Some pv"
  shows "\<exists>this' level. updateDevice h this deviceData = Inr this'
           \<and> batteryService this' =
               Some (battery @ [BatteryLevel level, ChargingState NOT_CHARGING]
                       @ concat (map flow_writes (edges_of pf)))"
  using assms
  by (simp add: updateDevice_def edges_of_def Let_def split: option.splits)

lemma last_StatusLowBattery_append:
  "last_StatusLowBattery (xs @ ys) =
     (case last_StatusLowBattery ys of None \<Rightarrow> last_StatusLowBattery xs | Some v \<Rightarrow> Some v)"
  by (induction xs rule: last_StatusLowBattery.induct) (auto split: option.splits)

lemma exporting_not_importing: "exporting f \<Longrightarrow> \<not> importing f"
  by (simp add: exporting_def importing_def)

lemma flow_writes_exporting:
  "exporting f \<Longrightarrow>
     flow_writes f = [ChargingState CHARGING, StatusLowBattery BATTERY_LEVEL_NORMAL]"
  by (simp add: flow_writes_def exporting_not_importing)

lemma flow_writes_importing:
  "importing f \<Longrightarrow>
     flow_writes f = [ChargingState NOT_CHARGING, StatusLowBattery BATTERY_LEVEL_LOW]"
  using exporting_not_importing [of f] by (auto simp: flow_writes_def)

lemma flow_writes_neither:
  "\<forall>g \<in> set flows. \<not> exporting g \<and> \<not> importing g \<Longrightarrow> concat (map flow_writes flows) = []"
  by (induction flows) (simp_all add: flow_writes_def)

lemma flow_writes_split:
  assumes "\<forall>g \<in> set post. \<not> exporting g \<and> \<not> importing g"
  shows "concat (map flow_writes (pre @ f # post)) = concat (map flow_writes pre) @ flow_writes f"
  using flow_writes_neither [OF assms] by simp

text \<open>
  Claim C8. An update of a device that has its services, on a record whose reading has
  the photovoltaic node, appends calls to the battery service, and the values the two
  characteristics end with are decided by the last edge of the list that goes from LOAD to
  GRID or from GRID to LOAD (in any case of the letters): when that edge goes from LOAD to
  GRID, \<open>ChargingState\<close> ends as \<open>CHARGING\<close> and \<open>StatusLowBattery\<close> as
  \<open>BATTERY_LEVEL_NORMAL\<close>; when it goes from GRID to LOAD, \<open>ChargingState\<close> ends as
  \<open>NOT_CHARGING\<close> and \<open>StatusLowBattery\<close> as \<open>BATTERY_LEVEL_LOW\<close>; when the list has no
  edge of either kind, \<open>ChargingState\<close> ends as \<open>NOT_CHARGING\<close> and \<open>StatusLowBattery\<close> is
  not written at all. Every kind of edge that is present has its two values written on
  the way.
\<close>

theorem updateDevice_last_edge:
  assumes "outletService this = Some outlet" and "batteryService this = Some battery"
    and "lightService this = Some light"
    and "deref h (powerflow deviceData) = Some pf" and "pf_PV pf = Some pv"
  shows "\<exists>this' writes. updateDevice h this deviceData = Inr this'
           \<and> batteryService this' = Some (battery @ writes)
           \<and> (\<forall>pre f post.
                 edges_of pf = pre @ f # post
                 \<and> (\<forall>g \<in> set post. \<not> exporting g \<and> \<not> importing g) \<longrightarrow>
                   (exporting f \<longrightarrow>
                      last_ChargingState writes = Some CHARGING
                      \<and> last_StatusLowBattery writes = Some BATTERY_LEVEL_NORMAL)
                   \<and> (importing f \<longrightarrow>
                      last_ChargingState writes = Some NOT_CHARGING
                      \<and> last_StatusLowBattery writes = Some BATTERY_LEVEL_LOW))
           \<and> ((\<forall>g \<in> set (edges_of pf). \<not> exporting g \<and> \<not> importing g) \<longrightarrow>
                 last_ChargingState writes = Some NOT_CHARGING
                 \<and> writes_StatusLowBattery writes = [])
           \<and> ((\<exists>f \<in> set (edges_of pf). exporting f) \<longrightarrow>
                 ChargingState CHARGING \<in> set writes
                 \<and> StatusLowBattery BATTERY_LEVEL_NORMAL \<in> set writes)
           \<and> ((\<exists>f \<in> set (edges_of pf). importing f) \<longrightarrow>
                 ChargingState NOT_CHARGING \<in> set writes
                 \<and> StatusLowBattery BATTERY_LEVEL_LOW \<in> set writes)"
proof -
  let ?flows = "concat (map flow_writes (edges_of pf))"
  obtain this' level where run: "updateDevice h this deviceData = Inr this'"
    and log: "batteryService this' =
                Some (battery @ [BatteryLevel level, ChargingState NOT_CHARGING] @ ?flows)"
    using updateDevice_result [OF assms] by blast
  let ?writes = "[BatteryLevel level, ChargingState NOT_CHARGING] @ ?flows"
  note fs = flow_writes_set [of "edges_of pf"]
  have last_edge:
    "(exporting f \<longrightarrow>
        last_ChargingState ?writes = Some CHARGING
        \<and> last_StatusLowBattery ?writes = Some BATTERY_LEVEL_NORMAL)
     \<and> (importing f \<longrightarrow>
        last_ChargingState ?writes = Some NOT_CHARGING
        \<and> last_StatusLowBattery ?writes = Some BATTERY_LEVEL_LOW)"
    if "edges_of pf = pre @ f # post \<and> (\<forall>g \<in> set post. \<not> exporting g \<and> \<not> importing g)"
    for pre f post
  proof -
    from that have quiet: "\<forall>g \<in> set post. \<not> exporting g \<and> \<not> importing g"
      and edges: "edges_of pf = pre @ f # post" by simp_all
    have flows: "?flows = concat (map flow_writes pre) @ flow_writes f"
      unfolding edges by (rule flow_writes_split [OF quiet])
    show ?thesis
      unfolding flows
      by (simp add: last_ChargingState_append last_StatusLowBattery_append
          flow_writes_exporting flow_writes_importing)
  qed
  have neither: "last_ChargingState ?writes = Some NOT_CHARGING
                 \<and> writes_StatusLowBattery ?writes = []"
    if "\<forall>g \<in> set (edges_of pf). \<not> exporting g \<and> \<not> importing g"
  proof -
    have nil: "?flows = []" using that by (rule flow_writes_neither)
    show ?thesis unfolding nil by simp
  qed
  have exp: "ChargingState CHARGING \<in> set ?writes
             \<and> StatusLowBattery BATTERY_LEVEL_NORMAL \<in> set ?writes"
    if "\<exists>f \<in> set (edges_of pf). exporting f"
    using that fs by auto
  have imp: "ChargingState NOT_CHARGING \<in> set ?writes
             \<and> StatusLowBattery BATTERY_LEVEL_LOW \<in> set ?writes"
    if "\<exists>f \<in> set (edges_of pf). importing f"
    using that fs by auto
  show ?thesis
    using run log last_edge neither exp imp
    by (intro exI [of _ this'] exI [of _ ?writes]) blast
qed

theorem updateDevice_last_edge_witness:
  "map_sum id (\<lambda>this'. map_option last_ChargingState (batteryService this'))
     (updateDevice (fst (processData example_config ascii_classes example_heap example_rawData))
        example_inverter
        (snd (hd (snd (processData example_config ascii_classes example_heap
                         example_rawData)))))
     = Inr (Some (Some CHARGING))
   \<and> map_sum id (\<lambda>this'. map_option last_StatusLowBattery (batteryService this'))
     (updateDevice (fst (processData example_config ascii_classes example_heap example_rawData))
        example_inverter
        (snd (hd (snd (processData example_config ascii_classes example_heap
                         example_rawData)))))
     = Inr (Some (Some BATTERY_LEVEL_NORMAL))
   \<and> edges_of (scale_reading 1000 example_reading)
       = [\<lparr>edge_from = ''PV'', edge_to = ''Load''\<rparr>, \<lparr>edge_from = ''LOAD'', edge_to = ''Grid''\<rparr>]
   \<and> exporting \<lparr>edge_from = ''LOAD'', edge_to = ''Grid''\<rparr>"
proof -
  let ?r = "processData example_config ascii_classes example_heap example_rawData"
  let ?d = "snd (hd (snd ?r))"
  let ?f = "\<lparr>edge_from = ''LOAD'', edge_to = ''Grid''\<rparr>"
  have o: "outletService example_inverter = Some []"
    and b: "batteryService example_inverter = Some []"
    and l: "lightService example_inverter = Some []"
    by (simp_all add: example_inverter_def)
  have pf: "deref (fst ?r) (powerflow ?d) = Some (scale_reading 1000 example_reading)"
    by (simp add: example_defs processData_defs scale_reading_def scale_node_def)
  have pv: "pf_PV (scale_reading 1000 example_reading)
              = Some \<lparr> currentPower = Some 3500, status = ''Active'' \<rparr>"
    by (simp add: scale_reading_def scale_node_def example_reading_def)
  have edges: "edges_of (scale_reading 1000 example_reading)
                 = [\<lparr>edge_from = ''PV'', edge_to = ''Load''\<rparr>] @ ?f # []"
    by (simp add: edges_of_def scale_reading_def example_reading_def)
  have ex: "exporting ?f"
    by (simp add: exporting_def toUpperCase_def toUpperCase_char_def)
  from updateDevice_last_edge [OF o b l pf pv]
  obtain this' writes where run: "updateDevice (fst ?r) example_inverter ?d = Inr this'"
    and log: "batteryService this' = Some ([] @ writes)"
    and last_edge: "\<forall>pre f post.
                 edges_of (scale_reading 1000 example_reading) = pre @ f # post
                 \<and> (\<forall>g \<in> set post. \<not> exporting g \<and> \<not> importing g) \<longrightarrow>
                   (exporting f \<longrightarrow>
                      last_ChargingState writes = Some CHARGING
                      \<and> last_StatusLowBattery writes = Some BATTERY_LEVEL_NORMAL)
                   \<and> (importing f \<longrightarrow>
                      last_ChargingState writes = Some NOT_CHARGING
                      \<and> last_StatusLowBattery writes = Some BATTERY_LEVEL_LOW)"
    by blast
  from last_edge edges ex
  have "last_ChargingState writes = Some CHARGING
        \<and> last_StatusLowBattery writes = Some BATTERY_LEVEL_NORMAL"
    by (metis empty_iff list.set(1))
  with run log edges ex show ?thesis by simp
qed

text \<open>The presence of an edge from LOAD to GRID does not decide alone: followed by an
  edge from GRID to LOAD, the update ends with \<open>NOT_CHARGING\<close> and
  \<open>BATTERY_LEVEL_LOW\<close>.\<close>

theorem updateDevice_both_kinds_counterexample:
  "deref example_heap_both (powerflow example_device) = Some example_reading_both
   \<and> edges_of example_reading_both
       = [\<lparr>edge_from = ''LOAD'', edge_to = ''GRID''\<rparr>, \<lparr>edge_from = ''GRID'', edge_to = ''LOAD''\<rparr>]
   \<and> exporting \<lparr>edge_from = ''LOAD'', edge_to = ''GRID''\<rparr>
   \<and> map_sum id (\<lambda>this'. map_option last_ChargingState (batteryService this'))
       (updateDevice example_heap_both example_inverter example_device)
     = Inr (Some (Some NOT_CHARGING))
   \<and> map_sum id (\<lambda>this'. map_option last_StatusLowBattery (batteryService this'))
       (updateDevice example_heap_both example_inverter example_device)
     = Inr (Some (Some BATTERY_LEVEL_LOW))"
  by (simp add: updateDevice_def Let_def deref_def example_heap_both_def example_reading_both_def
      example_device_def example_inverter_def edges_of_def flow_writes_def exporting_def
      importing_def toUpperCase_def toUpperCase_char_def)



section \<open>Properties of aggregation\<close>

lemma processData_grows:
  assumes "foldl (processData_site cfg U) (h, devs) es = (h', devs')"
  shows "next_addr h \<le> next_addr h' \<and> (\<forall>a < next_addr h. cells h' a = cells h a)"
  using assms
proof (induction es arbitrary: h devs)
  case Nil
  then show ?case by simp
next
  case (Cons e es)
  obtain h1 devs1 where step: "processData_site cfg U (h, devs) e = (h1, devs1)"
    by (cases "processData_site cfg U (h, devs) e") auto
  with Cons.prems have "foldl (processData_site cfg U) (h1, devs1) es = (h', devs')" by simp
  then have "next_addr h1 \<le> next_addr h' \<and> (\<forall>a < next_addr h1. cells h' a = cells h1 a)"
    by (rule Cons.IH)
  then show ?case using site_step(1,2) [OF step] by (metis less_le_trans order_trans)
qed

lemma track_device_frame:
  "store (track_device snk p d) = store p \<and> rawData (track_device snk p d) = rawData p"
  by (simp add: track_device_def Let_def split: option.splits)

lemma track_devices_frame:
  "store (foldl (track_device snk) p ds) = store p
   \<and> rawData (foldl (track_device snk) p ds) = rawData p"
  by (induction ds arbitrary: p) (simp_all add: track_device_frame)

lemma processPostSubscribe_frame:
  "rawData (processPostSubscribe cfg U snk p) = rawData p
   \<and> next_addr (store p) \<le> next_addr (store (processPostSubscribe cfg U snk p))
   \<and> (\<forall>a < next_addr (store p).
         cells (store (processPostSubscribe cfg U snk p)) a = cells (store p) a)"
proof -
  obtain h devs where run: "processData cfg U (store p) (rawData p) = (h, devs)"
    by (cases "processData cfg U (store p) (rawData p)") auto
  then have post: "processPostSubscribe cfg U snk p
                     = foldl (track_device snk) (p\<lparr>store := h\<rparr>) (map snd devs)"
    by (simp add: processPostSubscribe_def)
  have "next_addr (store p) \<le> next_addr h \<and> (\<forall>a < next_addr (store p). cells h a = cells (store p) a)"
    using run unfolding processData_def by (rule processData_grows)
  then show ?thesis
    using track_devices_frame [of snk "p\<lparr>store := h\<rparr>" "map snd devs"]
    by (simp add: post)
qed

lemma map_of_rawData_set: "map_of (rawData_set k v xs) = (map_of xs)(k \<mapsto> v)"
  by (induction xs rule: rawData_set.induct) (auto simp: fun_upd_twist)

lemma subscribeREST_site_failed:
  "\<not> both_succeed r \<Longrightarrow> subscribeREST_site cfg U snk u p r = p"
  by (auto simp: both_succeed_def subscribeREST_site_def split: fetched.splits)

lemma subscribeREST_site_commits:
  assumes "inventory_json r = Body inventory" and "powerflow_json r = Body pf"
  shows "subscribeREST_site cfg U snk u p r =
           processPostSubscribe cfg U snk
             (p\<lparr>store := snd (store_reading (store p) pf),
                rawData := rawData_set (site_id (round_site r))
                  \<lparr> raw_connection = u, raw_site = round_site r, raw_inventory = inventory,
                    raw_powerflow = fst (store_reading (store p) pf) \<rparr> (rawData p)\<rparr>)"
  using assms by (simp add: subscribeREST_site_def Let_def split: prod.splits)

lemma store_reading_cases:
  "(pf = None \<and> store_reading h pf = (None, h))
   \<or> (\<exists>v. pf = Some v
          \<and> store_reading h pf =
              (Some (next_addr h),
               h\<lparr>cells := (cells h)(next_addr h := Some v), next_addr := Suc (next_addr h)\<rparr>))"
  by (cases pf) (simp_all add: store_reading_def alloc_def)

lemma site_round_step:
  "next_addr (store p) \<le> next_addr (store (subscribeREST_site cfg U snk u p r))
   \<and> (\<forall>a < next_addr (store p).
         cells (store (subscribeREST_site cfg U snk u p r)) a = cells (store p) a)
   \<and> (\<forall>k. k \<noteq> site_id (round_site r) \<longrightarrow>
         map_of (rawData (subscribeREST_site cfg U snk u p r)) k = map_of (rawData p) k)
   \<and> (both_succeed r \<longrightarrow> committed u p (subscribeREST_site cfg U snk u p r) r)"
proof (cases "both_succeed r")
  case False
  then show ?thesis by (simp add: subscribeREST_site_failed)
next
  case True
  then obtain inventory pf where inv: "inventory_json r = Body inventory"
    and pf: "powerflow_json r = Body pf"
    unfolding both_succeed_def
    by (cases "inventory_json r"; cases "powerflow_json r") auto
  let ?h = "snd (store_reading (store p) pf)"
  let ?ref = "fst (store_reading (store p) pf)"
  let ?e = "\<lparr> raw_connection = u, raw_site = round_site r, raw_inventory = inventory,
              raw_powerflow = ?ref \<rparr>"
  let ?p0 = "p\<lparr>store := ?h, rawData := rawData_set (site_id (round_site r)) ?e (rawData p)\<rparr>"
  let ?p1 = "subscribeREST_site cfg U snk u p r"
  have p1: "?p1 = processPostSubscribe cfg U snk ?p0"
    using inv pf by (rule subscribeREST_site_commits)
  note post = processPostSubscribe_frame [of cfg U snk ?p0]
  have raw1: "rawData ?p1 = rawData_set (site_id (round_site r)) ?e (rawData p)"
    using post by (simp add: p1)
  have grow1: "next_addr ?h \<le> next_addr (store ?p1)"
    using post by (simp add: p1)
  have frame1: "cells (store ?p1) a = cells ?h a" if "a < next_addr ?h" for a
    using post that by (simp add: p1)
  have grow0: "next_addr (store p) \<le> next_addr ?h"
    using store_reading_cases [of pf "store p"] by auto
  have frame0: "cells ?h a = cells (store p) a" if "a < next_addr (store p)" for a
    using store_reading_cases [of pf "store p"] that by auto
  have a: "next_addr (store p) \<le> next_addr (store ?p1)" using grow0 grow1 by simp
  have b: "\<forall>a < next_addr (store p). cells (store ?p1) a = cells (store p) a"
    using frame0 frame1 grow0 by (metis less_le_trans)
  have c: "\<forall>k. k \<noteq> site_id (round_site r) \<longrightarrow> map_of (rawData ?p1) k = map_of (rawData p) k"
    by (simp add: raw1 map_of_rawData_set)
  have look: "map_of (rawData ?p1) (site_id (round_site r)) = Some ?e"
    by (simp add: raw1 map_of_rawData_set)
  have reading: "case ?ref of
                   None \<Rightarrow> powerflow_json r = Body None
                 | Some a \<Rightarrow>
                     next_addr (store p) \<le> a \<and> a < next_addr (store ?p1)
                     \<and> cells (store ?p1) a \<noteq> None
                     \<and> powerflow_json r = Body (cells (store ?p1) a)"
  proof (cases pf)
    case None
    then show ?thesis using pf by (simp add: store_reading_def)
  next
    case (Some v)
    then have ref: "?ref = Some (next_addr (store p))"
      and h: "?h = (store p)\<lparr>cells := (cells (store p))(next_addr (store p) := Some v),
                             next_addr := Suc (next_addr (store p))\<rparr>"
      by (simp_all add: store_reading_def alloc_def)
    have "next_addr (store p) < next_addr ?h" by (simp add: h)
    then have "cells (store ?p1) (next_addr (store p)) = cells ?h (next_addr (store p))"
      and "next_addr (store p) < next_addr (store ?p1)"
      using frame1 grow1 by simp_all
    moreover have "cells ?h (next_addr (store p)) = Some v" by (simp add: h)
    ultimately show ?thesis unfolding ref using pf Some by simp
  qed
  have d: "committed u p ?p1 r"
    unfolding committed_def using look reading inv by simp
  from a b c d show ?thesis by blast
qed

lemma cycle_fold:
  assumes "distinct (map (\<lambda>r. site_id (round_site r)) rounds)"
  shows "next_addr (store p) \<le> next_addr (store (foldl (subscribeREST_site cfg U snk u) p rounds))
     \<and> (\<forall>a < next_addr (store p).
           cells (store (foldl (subscribeREST_site cfg U snk u) p rounds)) a = cells (store p) a)
     \<and> (\<forall>k. k \<notin> (\<lambda>r. site_id (round_site r)) ` set rounds \<longrightarrow>
           map_of (rawData (foldl (subscribeREST_site cfg U snk u) p rounds)) k
             = map_of (rawData p) k)
     \<and> (\<forall>r \<in> set rounds.
           (both_succeed r \<longrightarrow>
              committed u p (foldl (subscribeREST_site cfg U snk u) p rounds) r)
           \<and> (\<not> both_succeed r \<longrightarrow>
                map_of (rawData (foldl (subscribeREST_site cfg U snk u) p rounds))
                  (site_id (round_site r))
                = map_of (rawData p) (site_id (round_site r))))"
  using assms
proof (induction rounds arbitrary: p)
  case Nil
  then show ?case by simp
next
  case (Cons r rounds)
  let ?p1 = "subscribeREST_site cfg U snk u p r"
  let ?p' = "foldl (subscribeREST_site cfg U snk u) ?p1 rounds"
  let ?id = "\<lambda>r. site_id (round_site r)"
  from Cons.prems have fresh: "?id r \<notin> ?id ` set rounds"
    and dist: "distinct (map ?id rounds)" by simp_all
  note step = site_round_step [of p cfg U snk u r]
  note ih = Cons.IH [OF dist, of ?p1]
  have s1: "next_addr (store p) \<le> next_addr (store ?p1)" using step by blast
  have s2: "cells (store ?p1) a = cells (store p) a" if "a < next_addr (store p)" for a
    using step that by blast
  have s3: "map_of (rawData ?p1) k = map_of (rawData p) k" if "k \<noteq> ?id r" for k
    using step that by blast
  have i1: "next_addr (store ?p1) \<le> next_addr (store ?p')" using ih by blast
  have i2: "cells (store ?p') a = cells (store ?p1) a" if "a < next_addr (store ?p1)" for a
    using ih that by blast
  have i3: "map_of (rawData ?p') k = map_of (rawData ?p1) k" if "k \<notin> ?id ` set rounds" for k
    using ih that by blast
  have a: "next_addr (store p) \<le> next_addr (store ?p')" using s1 i1 by simp
  have b: "\<forall>a < next_addr (store p). cells (store ?p') a = cells (store p) a"
    using s1 s2 i2 by (metis less_le_trans)
  have c: "\<forall>k. k \<notin> ?id ` set (r # rounds) \<longrightarrow> map_of (rawData ?p') k = map_of (rawData p) k"
    using s3 i3 by simp
  have first_ok: "committed u p ?p' r" if "both_succeed r"
  proof -
    from that step have c1: "committed u p ?p1 r" by blast
    have same: "map_of (rawData ?p') (?id r) = map_of (rawData ?p1) (?id r)"
      using i3 [OF fresh] .
    from c1 obtain e where e: "map_of (rawData ?p1) (?id r) = Some e"
      by (auto simp: committed_def split: option.splits)
    show ?thesis
    proof (cases "raw_powerflow e")
      case None
      then show ?thesis using c1 e same by (simp add: committed_def)
    next
      case (Some x)
      with c1 e have x: "x < next_addr (store ?p1)" by (simp add: committed_def)
      then have "cells (store ?p') x = cells (store ?p1) x" by (rule i2)
      moreover have "x < next_addr (store ?p')" using x i1 by simp
      ultimately show ?thesis using c1 e same Some by (simp add: committed_def)
    qed
  qed
  have first_failed: "map_of (rawData ?p') (?id r) = map_of (rawData p) (?id r)"
    if "\<not> both_succeed r"
    using that i3 [OF fresh] by (simp add: subscribeREST_site_failed)
  have later_ok: "committed u p ?p' r'" if "r' \<in> set rounds" and "both_succeed r'" for r'
  proof -
    from that ih have c1: "committed u ?p1 ?p' r'" by blast
    then show ?thesis using s1
      by (auto simp: committed_def split: option.splits)
  qed
  have later_failed: "map_of (rawData ?p') (?id r') = map_of (rawData p) (?id r')"
    if "r' \<in> set rounds" and "\<not> both_succeed r'" for r'
  proof -
    from that ih have "map_of (rawData ?p') (?id r') = map_of (rawData ?p1) (?id r')" by blast
    moreover have "?id r' \<in> ?id ` set rounds" using that(1) by (rule imageI)
    then have "?id r' \<noteq> ?id r" using fresh by metis
    ultimately show ?thesis using s3 by simp
  qed
  have d: "\<forall>r' \<in> set (r # rounds).
             (both_succeed r' \<longrightarrow> committed u p ?p' r')
             \<and> (\<not> both_succeed r' \<longrightarrow>
                  map_of (rawData ?p') (?id r') = map_of (rawData p) (?id r'))"
    using first_ok first_failed later_ok later_failed by auto
  from a b c d show ?case by simp
qed

text \<open>
  Claim C3. In an aggregation cycle of an authorised connection whose site list arrives,
  with one round per site and no site listed twice: the cache entry of a site is
  overwritten with the data of the round when both fetches of the round succeed; when at
  least one fails, the lookup of the site in the cache (an entry or none) is what it was
  before the cycle. The
  entries of the sites that are not in the list are what they were, and so is every
  object of the store that existed before the cycle, the readings of the old entries
  among them.
\<close>

theorem snapshot_commit:
  assumes "api_connections p connection_uuid = Some conn" and "authorised conn = True"
    and "distinct (map (\<lambda>r. site_id (round_site r)) rounds)"
    and "p' = subscribeREST cfg U snk connection_uuid p (Body (Some rounds))"
  shows "(\<forall>r \<in> set rounds.
           (both_succeed r \<longrightarrow> committed connection_uuid p p' r)
           \<and> (\<not> both_succeed r \<longrightarrow>
                map_of (rawData p') (site_id (round_site r))
                  = map_of (rawData p) (site_id (round_site r))))
       \<and> (\<forall>k. k \<notin> (\<lambda>r. site_id (round_site r)) ` set rounds \<longrightarrow>
             map_of (rawData p') k = map_of (rawData p) k)
       \<and> (\<forall>a < next_addr (store p). cells (store p') a = cells (store p) a)"
proof -
  have "p' = foldl (subscribeREST_site cfg U snk connection_uuid) p rounds"
    using assms(1,2,4) by (simp add: subscribeREST_def)
  then show ?thesis
    using cycle_fold [OF assms(3), of p cfg U snk connection_uuid] by simp
qed

theorem snapshot_commit_witness:
  "committed ''c1'' example_platform
     (subscribeREST example_config ascii_classes example_sink ''c1'' example_platform
        (Body (Some [example_round_ok, example_round_failed])))
     example_round_ok
   \<and> map_of (rawData (subscribeREST example_config ascii_classes example_sink ''c1''
                         example_platform
                         (Body (Some [example_round_ok, example_round_failed])))) 1002
       = None
   \<and> both_succeed example_round_ok \<and> \<not> both_succeed example_round_failed"
proof -
  let ?rounds = "[example_round_ok, example_round_failed]"
  let ?p' = "subscribeREST example_config ascii_classes example_sink ''c1'' example_platform
               (Body (Some ?rounds))"
  have c: "api_connections example_platform ''c1'' = Some \<lparr> authorised = True, apiKey = ''KEY'' \<rparr>"
    by (simp add: example_platform_def)
  have a: "authorised \<lparr> authorised = True, apiKey = ''KEY'' \<rparr> = True" by simp
  have d: "distinct (map (\<lambda>r. site_id (round_site r)) ?rounds)"
    by (simp add: example_round_ok_def example_round_failed_def example_site_def)
  have ok: "both_succeed example_round_ok"
    and failed: "\<not> both_succeed example_round_failed"
    by (simp_all add: both_succeed_def example_round_ok_def example_round_failed_def)
  have id2: "site_id (round_site example_round_failed) = 1002"
    by (simp add: example_round_failed_def)
  have before: "map_of (rawData example_platform) 1002 = None"
    by (simp add: example_platform_def)
  note inst = snapshot_commit [OF c a d refl, of example_config ascii_classes example_sink]
  have "committed ''c1'' example_platform ?p' example_round_ok"
    using inst ok by simp
  moreover have "map_of (rawData ?p') 1002 = None"
    using inst failed id2 before by simp
  ultimately show ?thesis using ok failed by simp
qed



section \<open>The older normalization changes the cache\<close>

text \<open>
  On the example cache (one site, two inverters, 3.5 kW at the photovoltaic node) the
  older \<^verbatim>\<open>#processData\<close> leaves 3500000 in the cached reading itself, the multiplier
  applied once for each inverter, and both device records hold the cached object. The
  newer one leaves the cached 3.5 and gives 3500 to both records.
\<close>

lemma processData_2024_changes_cache:
  "map_sum id (\<lambda>(h, devs). (node_power PV (cells h 0), map (\<lambda>(s, d). powerflow d) devs))
     (processData_2024 example_config ascii_classes example_heap example_rawData)
   = Inr (Some 3500000, [Some 0, Some 0])"
  by (simp add: processData_2024_def processData_site_2024_def processData_inverter_2024_def
      multiply_in_place_def unitMultplier_2024_def example_defs node_power_def
      toUpperCase_def toUpperCase_char_def Let_def)

section \<open>The references of the cache stay allocated\<close>

lemma refs_allocated_iff:
  "refs_allocated h raw \<longleftrightarrow>
     (\<forall>e \<in> set (map snd raw). \<forall>a. raw_powerflow e = Some a \<longrightarrow> a < next_addr h)"
  by (auto simp: refs_allocated_def list_all_iff split: option.splits)

lemma rawData_set_entries:
  "set (map snd (rawData_set k v xs)) \<subseteq> insert v (set (map snd xs))"
  by (induction xs rule: rawData_set.induct) auto

lemma refs_allocated_site:
  assumes "refs_allocated (store p) (rawData p)"
  shows "refs_allocated (store (subscribeREST_site cfg U snk u p r))
           (rawData (subscribeREST_site cfg U snk u p r))"
proof (cases "both_succeed r")
  case False
  then show ?thesis using assms by (simp add: subscribeREST_site_failed)
next
  case True
  then obtain inventory pf where inv: "inventory_json r = Body inventory"
    and pf: "powerflow_json r = Body pf"
    unfolding both_succeed_def
    by (cases "inventory_json r"; cases "powerflow_json r") auto
  let ?h = "snd (store_reading (store p) pf)"
  let ?ref = "fst (store_reading (store p) pf)"
  let ?e = "\<lparr> raw_connection = u, raw_site = round_site r, raw_inventory = inventory,
              raw_powerflow = ?ref \<rparr>"
  let ?p0 = "p\<lparr>store := ?h, rawData := rawData_set (site_id (round_site r)) ?e (rawData p)\<rparr>"
  let ?p1 = "subscribeREST_site cfg U snk u p r"
  have p1: "?p1 = processPostSubscribe cfg U snk ?p0"
    using inv pf by (rule subscribeREST_site_commits)
  note post = processPostSubscribe_frame [of cfg U snk ?p0]
  have raw1: "rawData ?p1 = rawData_set (site_id (round_site r)) ?e (rawData p)"
    using post by (simp add: p1)
  have grow: "next_addr (store p) \<le> next_addr ?h" and "next_addr ?h \<le> next_addr (store ?p1)"
    using store_reading_cases [of pf "store p"] post by (auto simp: p1)
  have new: "a < next_addr ?h" if "?ref = Some a" for a
    using store_reading_cases [of pf "store p"] that by auto
  have "a < next_addr (store ?p1)"
    if e: "e \<in> set (map snd (rawData ?p1))" and a: "raw_powerflow e = Some a" for e a
  proof -
    from e raw1 rawData_set_entries [of "site_id (round_site r)" ?e "rawData p"]
    have "e = ?e \<or> e \<in> set (map snd (rawData p))" by auto
    then show ?thesis
    proof
      assume "e = ?e"
      with a have "?ref = Some a" by simp
      then have "a < next_addr ?h" by (rule new)
      then show ?thesis using \<open>next_addr ?h \<le> next_addr (store ?p1)\<close> by simp
    next
      assume "e \<in> set (map snd (rawData p))"
      with assms a have "a < next_addr (store p)" unfolding refs_allocated_iff by blast
      then show ?thesis using grow \<open>next_addr ?h \<le> next_addr (store ?p1)\<close> by simp
    qed
  qed
  then show ?thesis unfolding refs_allocated_iff by blast
qed

lemma refs_allocated_cycle:
  assumes "refs_allocated (store p) (rawData p)"
  shows "refs_allocated (store (subscribeREST cfg U snk u p site_list))
           (rawData (subscribeREST cfg U snk u p site_list))"
proof -
  have "refs_allocated (store (foldl (subscribeREST_site cfg U snk u) q rounds))
          (rawData (foldl (subscribeREST_site cfg U snk u) q rounds))"
    if "refs_allocated (store q) (rawData q)" for q rounds
    using that by (induction rounds arbitrary: q) (simp_all add: refs_allocated_site)
  then show ?thesis using assms
    by (auto simp: subscribeREST_def split: option.splits fetched.splits)
qed

lemma refs_allocated_start: "refs_allocated h []"
  by (simp add: refs_allocated_def)

end
